theory Spec2Isabelle
  imports Main
begin

section \<open>Strings as byte sequences\<close>

text \<open>
  A Go string is a sequence of bytes. It is modelled as a \<open>string\<close>, a list of 8-bit
  characters; \<open>byte\<close> reads a character as the number between 0 and 255 that Go
  compares it with.
\<close>

definition byte :: "char \<Rightarrow> nat" where
  "byte c = of_char c"

definition isDigit :: "char \<Rightarrow> bool" where
  \<comment> \<open>the class \<open>\d\<close> of Go's regexp package, and \<open>'0' <= c && c <= '9'\<close> of strconv\<close>
  "isDigit c = (48 \<le> byte c \<and> byte c \<le> 57)"

definition newline :: char where
  "newline = CHR 0x0A"

definition backslash :: char where
  "backslash = CHR 0x5C"

section \<open>The library functions the parser calls\<close>

subsection \<open>unicode/utf8\<close>

definition RuneError :: nat where
  "RuneError = 0xFFFD"

definition RuneSelf :: nat where
  "RuneSelf = 0x80"

definition UTFMax :: nat where
  "UTFMax = 4"

text \<open>
  The table \<open>first\<close> of package utf8 with its accept ranges: for a leading byte, the
  length of the sequence and the bounds of its second byte; \<open>None\<close> for a byte that
  starts no sequence (the table's \<open>xx\<close>). ASCII bytes are handled before the lookup.
\<close>

definition first :: "nat \<Rightarrow> (nat \<times> nat \<times> nat) option" where
  "first b =
     (if 0xC2 \<le> b \<and> b \<le> 0xDF then Some (2, 0x80, 0xBF)
      else if b = 0xE0 then Some (3, 0xA0, 0xBF)
      else if 0xE1 \<le> b \<and> b \<le> 0xEC then Some (3, 0x80, 0xBF)
      else if b = 0xED then Some (3, 0x80, 0x9F)
      else if 0xEE \<le> b \<and> b \<le> 0xEF then Some (3, 0x80, 0xBF)
      else if b = 0xF0 then Some (4, 0x90, 0xBF)
      else if 0xF1 \<le> b \<and> b \<le> 0xF3 then Some (4, 0x80, 0xBF)
      else if b = 0xF4 then Some (4, 0x80, 0x8F)
      else None)"

text \<open>
  \<open>utf8.DecodeRuneInString\<close>: the first rune of the string and its width in bytes;
  \<open>(RuneError, 0)\<close> on the empty string and \<open>(RuneError, 1)\<close> on a malformed or
  truncated sequence. The masks and shifts of the source are written as \<open>mod\<close> and
  multiplication.
\<close>

definition DecodeRuneInString :: "string \<Rightarrow> nat \<times> nat" where
  "DecodeRuneInString s =
     (case s of
        [] \<Rightarrow> (RuneError, 0)
      | c0 # _ \<Rightarrow>
          let s0 = byte c0 in
          if s0 < RuneSelf then (s0, 1)
          else
            (case first s0 of
               None \<Rightarrow> (RuneError, 1)
             | Some (sz, lo, hi) \<Rightarrow>
                 if length s < sz then (RuneError, 1)
                 else
                   let s1 = byte (s ! 1) in
                   if s1 < lo \<or> hi < s1 then (RuneError, 1)
                   else if sz \<le> 2 then (s0 mod 32 * 64 + s1 mod 64, 2)
                   else
                     let s2 = byte (s ! 2) in
                     if s2 < 0x80 \<or> 0xBF < s2 then (RuneError, 1)
                     else if sz \<le> 3
                       then (s0 mod 16 * 4096 + s1 mod 64 * 64 + s2 mod 64, 3)
                     else
                       let s3 = byte (s ! 3) in
                       if s3 < 0x80 \<or> 0xBF < s3 then (RuneError, 1)
                       else (s0 mod 8 * 262144 + s1 mod 64 * 4096
                               + s2 mod 64 * 64 + s3 mod 64, 4)))"

lemma DecodeRuneInString_width:
  "s \<noteq> [] \<Longrightarrow> 1 \<le> snd (DecodeRuneInString s) \<and> snd (DecodeRuneInString s) \<le> 4"
  by (cases s)
     (auto simp: DecodeRuneInString_def Let_def first_def split: option.splits if_splits)

lemma DecodeRuneInString_shorter:
  "(r, w) = DecodeRuneInString (c # cs) \<Longrightarrow> Suc (length cs) - w < Suc (length cs)"
proof -
  assume "(r, w) = DecodeRuneInString (c # cs)"
  then have "w = snd (DecodeRuneInString (c # cs))"
    by (metis snd_conv)
  with DecodeRuneInString_width [of "c # cs"] show ?thesis
    by (cases w) auto
qed

lemma DecodeRuneInString_shorter':
  "Suc (length cs) - snd (DecodeRuneInString (c # cs)) < Suc (length cs)"
  using DecodeRuneInString_width [of "c # cs"]
  by (cases "snd (DecodeRuneInString (c # cs))") auto

text \<open>
  \<open>utf8.ValidString\<close> (and \<open>utf8.Valid\<close> on the same bytes): every rune decodes
  without the error result of width 1.
\<close>

function ValidString :: "string \<Rightarrow> bool" where
  "ValidString [] = True"
| "ValidString (c # cs) =
     (case DecodeRuneInString (c # cs) of
        (r, w) \<Rightarrow>
          if r = RuneError \<and> w = 1 then False else ValidString (drop w (c # cs)))"
  by pat_completeness auto
termination
  by (relation "measure length") (auto simp: DecodeRuneInString_shorter)

text \<open>\<open>utf8.RuneStart\<close>: the byte is not a continuation byte.\<close>

definition RuneStart :: "char \<Rightarrow> bool" where
  "RuneStart b = (\<not> (0x80 \<le> byte b \<and> byte b \<le> 0xBF))"

text \<open>
  The backwards search of \<open>utf8.DecodeLastRuneInString\<close>:
  \<open>for start--; start >= lim; start-- { if RuneStart(s[start]) { break } }\<close>,
  entered with \<open>start\<close> already decremented.
\<close>

function backScan :: "string \<Rightarrow> int \<Rightarrow> int \<Rightarrow> int" where
  "backScan s lim start =
     (if lim \<le> start
      then (if RuneStart (s ! nat start) then start else backScan s lim (start - 1))
      else start)"
  by pat_completeness auto
termination
  by (relation "measure (\<lambda>(s, lim, start). nat (start - lim + 1))") auto

declare backScan.simps [simp del]

definition DecodeLastRuneInString :: "string \<Rightarrow> nat \<times> nat" where
  "DecodeLastRuneInString s =
     (let end = length s in
      if end = 0 then (RuneError, 0)
      else
        let r = byte (s ! (end - 1)) in
        if r < RuneSelf then (r, 1)
        else
          let lim = max (int end - int UTFMax) 0;
              start0 = backScan s lim (int end - 2);
              start = (if start0 < 0 then 0 else nat start0);
              (r, sz) = DecodeRuneInString (drop start s)
          in if start + sz \<noteq> end then (RuneError, 1) else (r, sz))"

subsection \<open>unicode and strings\<close>

text \<open>\<open>unicode.IsSpace\<close>: the Latin-1 cases, then the table \<open>White_Space\<close>.\<close>

definition IsSpace :: "nat \<Rightarrow> bool" where
  "IsSpace r =
     (if r \<le> 0xFF
      then r = 0x09 \<or> r = 0x0A \<or> r = 0x0B \<or> r = 0x0C \<or> r = 0x0D \<or> r = 0x20
             \<or> r = 0x85 \<or> r = 0xA0
      else r = 0x1680 \<or> (0x2000 \<le> r \<and> r \<le> 0x200A) \<or> r = 0x2028 \<or> r = 0x2029
             \<or> r = 0x202F \<or> r = 0x205F \<or> r = 0x3000)"

text \<open>
  \<open>strings.TrimLeftFunc(s, unicode.IsSpace)\<close>: the string from its first rune that is
  not white space, the empty string when there is none.
\<close>

function TrimLeftFunc :: "string \<Rightarrow> string" where
  "TrimLeftFunc [] = []"
| "TrimLeftFunc (c # cs) =
     (case DecodeRuneInString (c # cs) of
        (r, w) \<Rightarrow> if IsSpace r then TrimLeftFunc (drop w (c # cs)) else c # cs)"
  by pat_completeness auto
termination
  by (relation "measure length") (auto simp: DecodeRuneInString_shorter)

text \<open>
  \<open>lastIndexFunc(s, unicode.IsSpace, false)\<close>: the byte index of the last rune,
  decoded backwards, that is not white space; \<open>None\<close> stands for \<open>-1\<close>.
\<close>

lemma backScan_le: "backScan s lim start \<le> start"
proof (induction s lim start rule: backScan.induct)
  case (1 s lim start)
  then show ?case
    by (subst backScan.simps) auto
qed

lemma DecodeLastRuneInString_width:
  assumes "s \<noteq> []"
  shows "1 \<le> snd (DecodeLastRuneInString s)"
proof -
  define start0 where "start0 = backScan s (max (int (length s) - int UTFMax) 0) (int (length s) - 2)"
  define start where "start = (if start0 < 0 then 0 else nat start0)"
  have "start0 \<le> int (length s) - 2"
    unfolding start0_def by (rule backScan_le)
  with assms have "start < length s"
    by (auto simp: start_def)
  then have "drop start s \<noteq> []" by simp
  then have "1 \<le> snd (DecodeRuneInString (drop start s))"
    using DecodeRuneInString_width by blast
  then show ?thesis
    using assms
    by (auto simp: DecodeLastRuneInString_def Let_def start_def start0_def split: prod.splits)
qed

function lastIndexFunc :: "string \<Rightarrow> nat option" where
  "lastIndexFunc s =
     (if s = [] then None
      else
        (case DecodeLastRuneInString s of
           (r, sz) \<Rightarrow>
             if \<not> IsSpace r then Some (length s - sz)
             else lastIndexFunc (take (length s - sz) s)))"
  by pat_completeness auto
termination
proof (relation "measure length", goal_cases)
  case 1
  show ?case by simp
next
  case (2 s r sz)
  then have "1 \<le> snd (DecodeLastRuneInString s)"
    using DecodeLastRuneInString_width [of s] by simp
  with 2 have "1 \<le> sz"
    by (metis snd_conv)
  with 2 show ?case by simp
qed

declare lastIndexFunc.simps [simp del]

text \<open>\<open>strings.TrimRightFunc(s, unicode.IsSpace)\<close>.\<close>

definition TrimRightFunc :: "string \<Rightarrow> string" where
  "TrimRightFunc s =
     (case lastIndexFunc s of
        None \<Rightarrow> take 0 s
      | Some i \<Rightarrow>
          if RuneSelf \<le> byte (s ! i)
          then take (i + snd (DecodeRuneInString (drop i s))) s
          else take (i + 1) s)"

text \<open>
  \<open>strings.TrimSpace\<close>: leading and trailing white space, as defined by Unicode,
  removed. The source runs over ASCII bytes first and falls back to
  \<open>TrimFunc(s, unicode.IsSpace)\<close>, which computes the same string.
\<close>

definition TrimSpace :: "string \<Rightarrow> string" where
  "TrimSpace s = TrimRightFunc (TrimLeftFunc s)"

text \<open>
  The second loop of \<open>strings.ToValidUTF8\<close>: ASCII bytes and well-formed sequences
  are copied, and each run of invalid bytes is replaced by one copy of the replacement.
\<close>

function toValidLoop :: "string \<Rightarrow> bool \<Rightarrow> string \<Rightarrow> string" where
  "toValidLoop repl invalid [] = []"
| "toValidLoop repl invalid (c # cs) =
     (if byte c < RuneSelf then c # toValidLoop repl False cs
      else
        let wid = snd (DecodeRuneInString (c # cs)) in
        if wid = 1
        then (if \<not> invalid then repl else []) @ toValidLoop repl True cs
        else take wid (c # cs) @ toValidLoop repl False (drop wid (c # cs)))"
  by pat_completeness auto
termination
  by (relation "measure (\<lambda>(repl, invalid, s). length s)")
     (auto simp: DecodeRuneInString_shorter')

text \<open>
  \<open>strings.ToValidUTF8\<close>: a string in which no rune decodes to the error result of
  width 1 is returned as it is; otherwise the loop runs.
\<close>

definition ToValidUTF8 :: "string \<Rightarrow> string \<Rightarrow> string" where
  "ToValidUTF8 s replacement =
     (if ValidString s then s else toValidLoop replacement False s)"

definition HasSuffix_backslash :: "string \<Rightarrow> bool" where
  \<comment> \<open>\<open>strings.HasSuffix(s, "\\")\<close>\<close>
  "HasSuffix_backslash s = (s \<noteq> [] \<and> last s = backslash)"

subsection \<open>strconv\<close>

datatype NumError = ErrSyntax | ErrRange

definition maxUint64 :: nat where
  "maxUint64 = 2 ^ 64 - 1"

text \<open>
  The digit loop of \<open>strconv.ParseUint(s, 10, 64)\<close>. The accumulator is a 64-bit
  unsigned integer: the wrap-around of \<open>n *= 10\<close> and of \<open>n + d\<close> is written out.
\<close>

fun parseUintLoop :: "nat \<Rightarrow> string \<Rightarrow> nat \<times> NumError option" where
  "parseUintLoop n [] = (n, None)"
| "parseUintLoop n (c # cs) =
     (if \<not> isDigit c then (0, Some ErrSyntax)
      else if maxUint64 div 10 + 1 \<le> n then (maxUint64, Some ErrRange)
      else
        let n10 = (n * 10) mod 2 ^ 64;
            n1 = (n10 + (byte c - 48)) mod 2 ^ 64
        in if n1 < n10 \<or> maxUint64 < n1 then (maxUint64, Some ErrRange)
           else parseUintLoop n1 cs)"

definition ParseUint :: "string \<Rightarrow> nat \<times> NumError option" where
  "ParseUint s = (if s = [] then (0, Some ErrSyntax) else parseUintLoop 0 s)"

text \<open>
  \<open>strconv.ParseInt(s, 10, 64)\<close>: the value and the error. On a range error the value
  is the largest magnitude of the sign, on a syntax error it is 0.
\<close>

definition ParseInt :: "string \<Rightarrow> int \<times> NumError option" where
  "ParseInt s0 =
     (if s0 = [] then (0, Some ErrSyntax)
      else
        let neg = (hd s0 = CHR ''-'');
            s = (if hd s0 = CHR ''+'' \<or> hd s0 = CHR ''-'' then tl s0 else s0);
            (un, err) = ParseUint s
        in if err = Some ErrSyntax then (0, err)
           else
             let cutoff = (2 :: nat) ^ 63
             in if \<not> neg \<and> cutoff \<le> un then (int cutoff - 1, Some ErrRange)
                else if neg \<and> cutoff < un then (- int cutoff, Some ErrRange)
                else if neg then (- int un, None)
                else (int un, None))"

subsection \<open>regexp\<close>

text \<open>
  \<open>re.FindStringSubmatch(line)\<close> for the pattern \<open>^: (\d{10,}):\d+;(.+)\<close>: the two
  captured groups of the match, \<open>None\<close> when the line does not match. The digit runs are
  greedy and each is followed by a character that is no digit, so the match is unique;
  \<open>.\<close> matches every character but the newline.
\<close>

definition FindStringSubmatch :: "string \<Rightarrow> (string \<times> string) option" where
  "FindStringSubmatch line =
     (case line of
        c1 # c2 # r \<Rightarrow>
          if c1 = CHR '':'' \<and> c2 = CHR '' ''
          then
            let ts = takeWhile isDigit r; r1 = dropWhile isDigit r in
            if length ts < 10 then None
            else
              (case r1 of
                 c3 # r2 \<Rightarrow>
                   if c3 = CHR '':''
                   then
                     let el = takeWhile isDigit r2; r3 = dropWhile isDigit r2 in
                     if el = [] then None
                     else
                       (case r3 of
                          c4 # r4 \<Rightarrow>
                            if c4 = CHR '';''
                            then
                              let cmd = takeWhile (\<lambda>c. c \<noteq> newline) r4 in
                              if cmd = [] then None else Some (ts, cmd)
                            else None
                        | [] \<Rightarrow> None)
                   else None
               | [] \<Rightarrow> None)
          else None
      | _ \<Rightarrow> None)"

section \<open>The history reader\<close>

record HistoryEntry =
  Timestamp :: int
  Command :: string

text \<open>
  What \<open>parseHistory\<close> sees of its reader through \<open>bufio.Scanner\<close>: the lines that
  the calls of \<open>scanner.Scan()\<close> yield, in order, and the value of \<open>scanner.Err()\<close>
  once \<open>Scan\<close> has returned false (\<open>None\<close> for \<open>nil\<close>).
\<close>

record 'e scanner =
  lines :: "string list"
  Err :: "'e option"

datatype 'e error = ErrorReadingHistoryData 'e

definition replacement :: string where
  \<comment> \<open>the Go string \<open>"\uFFFD"\<close>\<close>
  "replacement = [CHR 0xEF, CHR 0xBF, CHR 0xBD]"

definition ensureValidUTF8 :: "string \<Rightarrow> string" where
  "ensureValidUTF8 lineBytes =
     (if ValidString lineBytes then lineBytes else ToValidUTF8 lineBytes replacement)"

record parser =
  allEntries :: "HistoryEntry list"
  currentCommand :: string
  currentTimestamp :: int

definition flush :: "parser \<Rightarrow> HistoryEntry list" where
  \<comment> \<open>the entry list after the block that appends the command being built, if any\<close>
  "flush p =
     (if currentCommand p \<noteq> []
      then allEntries p @
             [\<lparr>Timestamp = currentTimestamp p,
               Command = ToValidUTF8 (TrimSpace (currentCommand p)) replacement\<rparr>]
      else allEntries p)"

definition scanLine :: "parser \<Rightarrow> string \<Rightarrow> parser" where
  \<comment> \<open>one iteration of the loop \<open>for scanner.Scan()\<close>\<close>
  "scanLine p originalLineBytes =
     (let line = ensureValidUTF8 originalLineBytes in
      case FindStringSubmatch line of
        Some (m1, m2) \<Rightarrow>
          \<lparr>allEntries = flush p,
            currentCommand = ToValidUTF8 m2 replacement,
            currentTimestamp = fst (ParseInt m1)\<rparr>
      | None \<Rightarrow>
          if currentCommand p \<noteq> []
          then
            let currentStr = currentCommand p in
            if HasSuffix_backslash currentStr
            then p\<lparr>currentCommand := butlast currentStr @ line\<rparr>
            else p\<lparr>currentCommand := currentStr @ [newline] @ line\<rparr>
          else p)"

definition initial :: parser where
  "initial = \<lparr>allEntries = [], currentCommand = [], currentTimestamp = 0\<rparr>"

definition parseHistory :: "'e scanner \<Rightarrow> 'e error + HistoryEntry list" where
  "parseHistory reader =
     (let p = foldl scanLine initial (lines reader);
          allEntries = flush p
      in case Err reader of
           Some err \<Rightarrow> Inl (ErrorReadingHistoryData err)
         | None \<Rightarrow> Inr allEntries)"

definition applyLimitFilter :: "HistoryEntry list \<Rightarrow> int \<Rightarrow> HistoryEntry list" where
  "applyLimitFilter entries limit =
     (if limit \<le> 0 \<or> int (length entries) \<le> limit then entries
      else drop (nat (int (length entries) - limit)) entries)"

section \<open>Notions used to state the properties\<close>

text \<open>
  The runes of a string, as a Go \<open>range\<close> loop over the string yields them: an invalid
  byte gives \<open>RuneError\<close> and is one byte wide.
\<close>

function runes :: "string \<Rightarrow> nat list" where
  "runes [] = []"
| "runes (c # cs) =
     (case DecodeRuneInString (c # cs) of (r, w) \<Rightarrow> r # runes (drop w (c # cs)))"
  by pat_completeness auto
termination
  by (relation "measure length") (auto simp: DecodeRuneInString_shorter)

text \<open>White space at the two ends of a string: its first rune, its last rune.\<close>

definition leadingSpace :: "string \<Rightarrow> bool" where
  "leadingSpace s = (case runes s of [] \<Rightarrow> False | r # rs \<Rightarrow> IsSpace r)"

definition trailingSpace :: "string \<Rightarrow> bool" where
  "trailingSpace s = (case runes s of [] \<Rightarrow> False | r # rs \<Rightarrow> IsSpace (last (r # rs)))"

text \<open>The number that a string of decimal digits denotes.\<close>

definition decimal :: "string \<Rightarrow> nat" where
  "decimal ds = foldl (\<lambda>n c. 10 * n + (byte c - 48)) 0 ds"

text \<open>
  A line of the header form: the marker, the timestamp field, a colon, the secondary
  field, a semicolon and the remainder.
\<close>

definition headerLine :: "string \<Rightarrow> string \<Rightarrow> string \<Rightarrow> string" where
  "headerLine ts el cmd = '': '' @ ts @ '':'' @ el @ '';'' @ cmd"

definition quote :: char where
  "quote = CHR 0x27"

definition escaped_stream :: "unit scanner" where
  \<comment> \<open>the line \<open>: 1700000100:0;git commit -m 'fix \\<close> followed by the line \<open>bug'\<close>\<close>
  "escaped_stream =
     \<lparr>lines = ['': 1700000100:0;git commit -m '' @ [quote] @ ''fix '' @ [backslash],
               ''bug'' @ [quote]],
      Err = None\<rparr>"

text \<open>
  The three fields of a valid header line: a timestamp of at least ten decimal digits, a
  secondary field of decimal digits that is not empty, and a remainder that is not empty.
  A line that the scanner yields holds no newline.
\<close>

definition validHeader :: "string \<times> string \<times> string \<Rightarrow> bool" where
  "validHeader h =
     (case h of
        (ts, el, cmd) \<Rightarrow>
          10 \<le> length ts \<and> list_all isDigit ts \<and> el \<noteq> [] \<and> list_all isDigit el
            \<and> cmd \<noteq> [] \<and> newline \<notin> set cmd)"

definition sample_stream :: "unit scanner" where
  \<comment> \<open>the second line holds the bytes FF FE, a cut-off sequence E2 82 and white space\<close>
  "sample_stream =
     \<lparr>lines = ['': 1700000000:0; ls '',
               ''-la '' @ [CHR 0xFF, CHR 0xFE] @ ''x'' @ [CHR 0xE2, CHR 0x82] @ ''  ''],
      Err = None\<rparr>"

text \<open>
  A string that is exactly one well-formed encoded rune, and strings cut into such
  pieces; \<open>sp\<close> holds of a piece that encodes white space.
\<close>

definition complete :: "string \<Rightarrow> bool" where
  "complete q = (q \<noteq> [] \<and> snd (DecodeRuneInString q) = length q
                  \<and> DecodeRuneInString q \<noteq> (RuneError, 1))"

definition rune_of :: "string \<Rightarrow> nat" where
  "rune_of q = fst (DecodeRuneInString q)"

definition chunked :: "string list \<Rightarrow> bool" where
  "chunked qs = list_all complete qs"

definition sp :: "string \<Rightarrow> bool" where
  "sp q = IsSpace (rune_of q)"

text \<open>
  The sanitizer as the specification words it. A string is cut, from left to right, into
  the well-formed encoded runes it holds and the malformed byte subsequences between
  them: a byte at which no well-formed rune starts is malformed, and malformed bytes
  that follow one another form one subsequence.
\<close>

datatype piece = Rune string | Malformed string

fun source :: "piece \<Rightarrow> string" where
  "source (Rune q) = q"
| "source (Malformed m) = m"

fun joinMalformed :: "char \<Rightarrow> piece list \<Rightarrow> piece list" where
  "joinMalformed c (Malformed m # ps) = Malformed (c # m) # ps"
| "joinMalformed c ps = Malformed [c] # ps"

function pieces :: "string \<Rightarrow> piece list" where
  "pieces [] = []"
| "pieces (c # cs) =
     (case DecodeRuneInString (c # cs) of
        (r, w) \<Rightarrow>
          if r = RuneError \<and> w = 1 then joinMalformed c (pieces cs)
          else Rune (take w (c # cs)) # pieces (drop w (c # cs)))"
  by pat_completeness auto
termination
  by (relation "measure length") (auto simp: DecodeRuneInString_shorter)

text \<open>
  No two malformed pieces are neighbours, a rune piece is one well-formed rune and a
  malformed piece is not empty.
\<close>

fun separated :: "piece list \<Rightarrow> bool" where
  "separated (Malformed a # Malformed b # ps) = False"
| "separated (p # ps) = separated ps"
| "separated [] = True"

fun wellCut :: "piece \<Rightarrow> bool" where
  "wellCut (Rune q) = complete q"
| "wellCut (Malformed m) = (m \<noteq> [])"

text \<open>The UTF-8 encoding of the Unicode replacement character U+FFFD.\<close>

definition replacementCharacter :: string where
  "replacementCharacter = [CHR 0xEF, CHR 0xBF, CHR 0xBD]"

text \<open>
  Every malformed byte subsequence replaced by the replacement character, everything
  else kept byte for byte.
\<close>

fun shown :: "piece \<Rightarrow> string" where
  "shown (Rune q) = q"
| "shown (Malformed m) = replacementCharacter"

definition replaceMalformed :: "string \<Rightarrow> string" where
  "replaceMalformed s = concat (map shown (pieces s))"

fun dropMalformed :: "piece list \<Rightarrow> piece list" where
  "dropMalformed (Malformed m # ps) = ps"
| "dropMalformed ps = ps"

text \<open>
  The classifier and the assembler as the specification words them, on text that is
  already sanitized. A header line closes the open record, which is emitted with its
  text trimmed, and opens a new one with the parsed timestamp and the remainder of the
  line. Any other line is discarded when no record is open; otherwise it is joined to
  the open text: after a trailing backslash, which is removed, with no separator, else
  after a newline. At the end of the stream the open record is emitted.
\<close>

definition emit :: "parser \<Rightarrow> HistoryEntry list" where
  "emit p =
     (if currentCommand p \<noteq> []
      then allEntries p @
             [\<lparr>Timestamp = currentTimestamp p, Command = TrimSpace (currentCommand p)\<rparr>]
      else allEntries p)"

definition joinLine :: "parser \<Rightarrow> string \<Rightarrow> parser" where
  "joinLine p line =
     (case FindStringSubmatch line of
        Some (ts, cmd) \<Rightarrow>
          \<lparr>allEntries = emit p, currentCommand = cmd, currentTimestamp = fst (ParseInt ts)\<rparr>
      | None \<Rightarrow>
          if currentCommand p = [] then p
          else if HasSuffix_backslash (currentCommand p)
            then p\<lparr>currentCommand := butlast (currentCommand p) @ line\<rparr>
          else p\<lparr>currentCommand := currentCommand p @ [newline] @ line\<rparr>)"

definition assemble :: "string list \<Rightarrow> HistoryEntry list" where
  "assemble ls = emit (foldl joinLine initial ls)"

text \<open>
  A byte that starts no rune wherever it stands: a continuation byte, \<open>C0\<close>,
  \<open>C1\<close>, or \<open>F5\<close> and above.
\<close>

definition neverStarts :: "char \<Rightarrow> bool" where
  "neverStarts c = (RuneSelf \<le> byte c \<and> first (byte c) = None)"

text \<open>
  The invariant of the scanning loop: the command being built is well-formed UTF-8, and
  the command of every entry appended so far is well-formed and has no white space at
  either end.
\<close>

definition wellFormed :: "string \<Rightarrow> bool" where
  "wellFormed c = (ValidString c \<and> \<not> leadingSpace c \<and> \<not> trailingSpace c)"

definition invariant :: "parser \<Rightarrow> bool" where
  "invariant p =
     (ValidString (currentCommand p) \<and> list_all (\<lambda>e. wellFormed (Command e)) (allEntries p))"

section \<open>Evaluation\<close>

lemmas utf8_eval =
  DecodeRuneInString_def DecodeLastRuneInString_def byte_def RuneSelf_def RuneError_def
  UTFMax_def first_def RuneStart_def IsSpace_def

lemmas parser_eval =
  parseHistory_def scanLine_def flush_def initial_def ensureValidUTF8_def ToValidUTF8_def
  FindStringSubmatch_def isDigit_def newline_def backslash_def HasSuffix_backslash_def
  ParseInt_def ParseUint_def maxUint64_def replacement_def

lemmas trim_eval = TrimSpace_def TrimRightFunc_def lastIndexFunc.simps backScan.simps

text \<open>
  A string whose first and last bytes are ASCII and no white space is left as it is by
  \<open>TrimSpace\<close>.
\<close>

lemma DecodeRuneInString_ascii:
  "byte c < RuneSelf \<Longrightarrow> DecodeRuneInString (c # cs) = (byte c, 1)"
  by (simp add: DecodeRuneInString_def)

lemma TrimLeftFunc_ascii_head:
  assumes "byte c < RuneSelf" and "\<not> IsSpace (byte c)"
  shows "TrimLeftFunc (c # cs) = c # cs"
  using assms by (simp add: DecodeRuneInString_ascii)

lemma TrimRightFunc_ascii_last:
  assumes "s \<noteq> []" and "byte (last s) < RuneSelf" and "\<not> IsSpace (byte (last s))"
  shows "TrimRightFunc s = s"
proof -
  have l: "s ! (length s - Suc 0) = last s"
    using assms(1) by (simp add: last_conv_nth)
  have "DecodeLastRuneInString s = (byte (last s), 1)"
    using assms(1,2) l by (simp add: DecodeLastRuneInString_def Let_def)
  then have "lastIndexFunc s = Some (length s - 1)"
    using assms(1,3) by (subst lastIndexFunc.simps) simp
  moreover have "Suc (length s - Suc 0) = length s"
    using assms(1) by (cases s) auto
  ultimately show ?thesis
    using assms(2) l by (simp add: TrimRightFunc_def)
qed

lemma TrimSpace_ascii_ends:
  assumes "s \<noteq> []"
    and "byte (hd s) < RuneSelf" and "\<not> IsSpace (byte (hd s))"
    and "byte (last s) < RuneSelf" and "\<not> IsSpace (byte (last s))"
  shows "TrimSpace s = s"
proof -
  obtain c cs where s: "s = c # cs"
    using assms(1) by (cases s) auto
  have "byte c < RuneSelf" and "\<not> IsSpace (byte c)"
    using assms(2,3) by (simp_all add: s)
  then have "TrimLeftFunc s = s"
    unfolding s by (rule TrimLeftFunc_ascii_head)
  then show ?thesis
    using assms(1,4,5) by (simp add: TrimSpace_def TrimRightFunc_ascii_last)
qed

section \<open>Well-formed strings\<close>

lemma chunked_iff: "chunked qs = (\<forall>q \<in> set qs. complete q)"
  by (simp add: chunked_def list_all_iff)

lemma complete_shape:
  assumes "complete q"
  obtains a where "q = [a]"
  | a b where "q = [a, b]"
  | a b c where "q = [a, b, c]"
  | a b c d where "q = [a, b, c, d]"
proof -
  have "q \<noteq> []" and "length q \<le> 4"
    using assms DecodeRuneInString_width [of q] by (auto simp: complete_def)
  then show ?thesis
    using that
    by (cases q; cases "tl q"; cases "tl (tl q)"; cases "tl (tl (tl q))";
        cases "tl (tl (tl (tl q)))") auto
qed

lemma first_size: "first b = Some (sz, lo, hi) \<Longrightarrow> 2 \<le> sz \<and> sz \<le> 4 \<and> 0x80 \<le> lo \<and> hi \<le> 0xBF \<and> 0xC2 \<le> b"
  by (auto simp: first_def split: if_splits)

lemma complete_append:
  assumes "complete q"
  shows "DecodeRuneInString (q @ t) = DecodeRuneInString q"
  using assms
proof (cases q rule: complete_shape)
  case (1 a)
  then show ?thesis using assms 
    by (auto simp: complete_def DecodeRuneInString_def Let_def split: option.splits if_splits)
next
  case (2 a b)
  then show ?thesis using assms
    by (auto simp: complete_def DecodeRuneInString_def Let_def split: option.splits if_splits dest: first_size)
next
  case (3 a b c)
  then show ?thesis using assms
    by (auto simp: complete_def DecodeRuneInString_def Let_def split: option.splits if_splits dest: first_size)
next
  case (4 a b c d)
  then show ?thesis using assms
    by (auto simp: complete_def DecodeRuneInString_def Let_def split: option.splits if_splits dest: first_size)
qed

lemma complete_take:
  assumes "s \<noteq> []" and "DecodeRuneInString s \<noteq> (RuneError, 1)"
  shows "complete (take (snd (DecodeRuneInString s)) s)"
proof -
  obtain c cs where s: "s = c # cs" using assms(1) by (cases s) auto
  have "snd (DecodeRuneInString s) \<le> length s \<and>
        DecodeRuneInString (take (snd (DecodeRuneInString s)) s) = DecodeRuneInString s"
    using assms(2) unfolding s
    by (cases cs; cases "tl cs"; cases "tl (tl cs)")
       (auto simp: DecodeRuneInString_def Let_def split: option.splits if_splits dest: first_size)
  then show ?thesis
    using assms DecodeRuneInString_width [of s]
    by (auto simp: complete_def)
qed

lemma complete_ascii: "byte c < RuneSelf \<Longrightarrow> complete [c]"
  by (simp add: complete_def DecodeRuneInString_def RuneError_def RuneSelf_def)

lemma complete_single: "complete [c] \<Longrightarrow> byte c < RuneSelf"
  by (auto simp: complete_def DecodeRuneInString_def Let_def split: option.splits if_splits dest: first_size)

lemma complete_head_ascii:
  assumes "complete (c # cs)" and "byte c < RuneSelf"
  shows "cs = []"
  using assms by (auto simp: complete_def DecodeRuneInString_def)

lemma complete_multi:
  assumes "complete q" and "2 \<le> length q"
  shows "RuneStart (hd q) \<and> (\<forall>i. 1 \<le> i \<and> i < length q \<longrightarrow> \<not> RuneStart (q ! i))
         \<and> RuneSelf \<le> byte (hd q) \<and> RuneSelf \<le> byte (last q)"
  using assms(1)
proof (cases q rule: complete_shape)
  case (1 a)
  then show ?thesis using assms by simp
next
  case (2 a b)
  then show ?thesis using assms
    by (auto simp: complete_def DecodeRuneInString_def Let_def RuneStart_def RuneSelf_def
        less_Suc_eq split: option.splits if_splits dest: first_size)
next
  case (3 a b c)
  then show ?thesis using assms
    by (auto simp: complete_def DecodeRuneInString_def Let_def RuneStart_def RuneSelf_def
        less_Suc_eq numeral_3_eq_3 split: option.splits if_splits dest: first_size)
next
  case (4 a b c d)
  then show ?thesis using assms
    by (auto simp: complete_def DecodeRuneInString_def Let_def RuneStart_def RuneSelf_def
        less_Suc_eq numeral_3_eq_3 split: option.splits if_splits dest: first_size)
qed

lemma ValidString_complete_append:
  assumes "complete q"
  shows "ValidString (q @ t) = ValidString t"
proof -
  obtain c cs where q: "q = c # cs" using assms by (cases q) (auto simp: complete_def)
  have d: "DecodeRuneInString (c # cs @ t) = DecodeRuneInString q"
    using complete_append [OF assms, of t] by (simp add: q)
  obtain r where r: "DecodeRuneInString q = (r, length q)"
    using assms by (cases "DecodeRuneInString q") (auto simp: complete_def)
  have "\<not> (r = RuneError \<and> length q = 1)"
    using assms r by (auto simp: complete_def)
  moreover have "drop (length q) (c # cs @ t) = t"
    by (simp add: q)
  ultimately show ?thesis
    using d r by (auto simp: q)
qed

lemma ValidString_concat: "chunked qs \<Longrightarrow> ValidString (concat qs)"
  by (induction qs) (simp_all add: chunked_iff ValidString_complete_append)

lemma ValidString_chunks: "ValidString s \<Longrightarrow> \<exists>qs. chunked qs \<and> s = concat qs"
proof (induction s rule: ValidString.induct)
  case 1
  have "chunked []" by (simp add: chunked_iff)
  then show ?case by force
next
  case (2 c cs)
  obtain r w where d: "DecodeRuneInString (c # cs) = (r, w)"
    by (cases "DecodeRuneInString (c # cs)")
  with "2.prems" have good: "\<not> (r = RuneError \<and> w = 1)" and v: "ValidString (drop w (c # cs))"
    by (auto split: if_splits)
  from "2.IH" [OF d [symmetric] good v] obtain qs
    where qs: "chunked qs" "drop w (c # cs) = concat qs" by blast
  have "complete (take w (c # cs))"
    using complete_take [of "c # cs"] d good by auto
  then have "chunked (take w (c # cs) # qs)"
    using qs(1) by (simp add: chunked_iff)
  moreover have "c # cs = concat (take w (c # cs) # qs)"
    using qs(2) by (metis append_take_drop_id concat.simps(2))
  ultimately show ?case by blast
qed

lemma ValidString_iff: "ValidString s \<longleftrightarrow> (\<exists>qs. chunked qs \<and> s = concat qs)"
  using ValidString_chunks ValidString_concat by blast

lemma ValidString_append: "ValidString a \<Longrightarrow> ValidString b \<Longrightarrow> ValidString (a @ b)"
proof -
  assume "ValidString a" and "ValidString b"
  then obtain qa qb where "chunked qa" "a = concat qa" "chunked qb" "b = concat qb"
    using ValidString_chunks by blast
  then have "chunked (qa @ qb)" and "a @ b = concat (qa @ qb)"
    by (auto simp: chunked_iff)
  then show ?thesis using ValidString_concat by metis
qed

lemma complete_decode:
  "complete q \<Longrightarrow> DecodeRuneInString (q @ t) = (rune_of q, length q)"
  using complete_append [of q t]
  by (cases "DecodeRuneInString q") (auto simp: complete_def rune_of_def)

lemma runes_complete_append:
  assumes "complete q"
  shows "runes (q @ t) = rune_of q # runes t"
proof -
  obtain c cs where q: "q = c # cs" using assms by (cases q) (auto simp: complete_def)
  have "DecodeRuneInString (c # cs @ t) = (rune_of q, length q)"
    using complete_decode [OF assms, of t] by (simp add: q)
  moreover have "drop (length q) (c # cs @ t) = t"
    by (simp add: q)
  ultimately show ?thesis
    by (auto simp: q)
qed

lemma runes_concat: "chunked qs \<Longrightarrow> runes (concat qs) = map rune_of qs"
  by (induction qs) (simp_all add: chunked_iff runes_complete_append)

lemma TrimLeftFunc_complete_append:
  assumes "complete q"
  shows "TrimLeftFunc (q @ t) = (if sp q then TrimLeftFunc t else q @ t)"
proof -
  obtain c cs where q: "q = c # cs" using assms by (cases q) (auto simp: complete_def)
  have "DecodeRuneInString (c # cs @ t) = (rune_of q, length q)"
    using complete_decode [OF assms, of t] by (simp add: q)
  moreover have "drop (length q) (c # cs @ t) = t"
    by (simp add: q)
  ultimately show ?thesis
    by (auto simp: q sp_def)
qed

lemma TrimLeftFunc_concat:
  "chunked qs \<Longrightarrow> TrimLeftFunc (concat qs) = concat (dropWhile sp qs)"
  by (induction qs) (simp_all add: chunked_iff TrimLeftFunc_complete_append)

lemma backScan_hit:
  "lim \<le> start \<Longrightarrow> RuneStart (s ! nat start) \<Longrightarrow> backScan s lim start = start"
  by (subst backScan.simps) simp

lemma backScan_miss:
  "lim \<le> start \<Longrightarrow> \<not> RuneStart (s ! nat start) \<Longrightarrow>
     backScan s lim start = backScan s lim (start - 1)"
  by (subst backScan.simps) simp

lemma backScan_find:
  assumes "lim \<le> int k" and "RuneStart (s ! k)"
    and "\<forall>i. k < i \<and> i \<le> k + n \<longrightarrow> \<not> RuneStart (s ! i)"
  shows "backScan s lim (int (k + n)) = int k"
  using assms(3)
proof (induction n)
  case 0
  show ?case using assms(1,2) by (simp add: backScan_hit)
next
  case (Suc n)
  have "nat (int (k + Suc n)) = k + Suc n"
    by (rule nat_int)
  moreover have "\<not> RuneStart (s ! (k + Suc n))"
    using Suc.prems by simp
  ultimately have "\<not> RuneStart (s ! nat (int (k + Suc n)))"
    by metis
  then have "backScan s lim (int (k + Suc n)) = backScan s lim (int (k + Suc n) - 1)"
    using assms(1) by (intro backScan_miss) auto
  also have "int (k + Suc n) - 1 = int (k + n)" by simp
  also have "backScan s lim (int (k + n)) = int k"
    using Suc by simp
  finally show ?case .
qed

lemma DecodeLastRuneInString_multi:
  assumes "s \<noteq> []" and "RuneSelf \<le> byte (last s)"
    and "backScan s (max (int (length s) - int UTFMax) 0) (int (length s) - 2) = int k"
    and "DecodeRuneInString (drop k s) = (r, w)" and "k + w = length s"
  shows "DecodeLastRuneInString s = (r, w)"
proof -
  have "s ! (length s - 1) = last s"
    using assms(1) by (simp add: last_conv_nth)
  then show ?thesis
    using assms by (simp add: DecodeLastRuneInString_def Let_def)
qed

lemma DecodeLastRuneInString_complete:
  assumes "complete q"
  shows "DecodeLastRuneInString (p @ q) = (rune_of q, length q)"
proof (cases "length q = 1")
  case True
  then obtain a where q: "q = [a]"
    by (cases q) auto
  then have "byte a < RuneSelf"
    using assms complete_single by simp
  then show ?thesis
    using q by (simp add: DecodeLastRuneInString_def rune_of_def DecodeRuneInString_ascii)
next
  case False
  have ne: "q \<noteq> []" and le: "length q \<le> 4"
    using assms DecodeRuneInString_width [of q] by (auto simp: complete_def)
  with False have two: "2 \<le> length q"
    by (cases q; cases "tl q") auto
  note m = complete_multi [OF assms two]
  obtain n where n: "length q = n + 2"
    using two by (metis add.commute le_Suc_ex)
  have "backScan (p @ q) (max (int (length (p @ q)) - int UTFMax) 0) (int (length p + n))
          = int (length p)"
  proof (rule backScan_find)
    show "max (int (length (p @ q)) - int UTFMax) 0 \<le> int (length p)"
      using le by (simp add: UTFMax_def)
    show "RuneStart ((p @ q) ! length p)"
      using m ne by (simp add: hd_conv_nth nth_append)
    show "\<forall>i. length p < i \<and> i \<le> length p + n \<longrightarrow> \<not> RuneStart ((p @ q) ! i)"
    proof (intro allI impI)
      fix i assume i: "length p < i \<and> i \<le> length p + n"
      then have "(p @ q) ! i = q ! (i - length p)"
        by (simp add: nth_append)
      moreover have "1 \<le> i - length p \<and> i - length p < length q"
        using i n by auto
      ultimately show "\<not> RuneStart ((p @ q) ! i)"
        using m by simp
    qed
  qed
  moreover have "int (length p + n) = int (length (p @ q)) - 2"
    using n by simp
  ultimately have b: "backScan (p @ q) (max (int (length (p @ q)) - int UTFMax) 0)
      (int (length (p @ q)) - 2) = int (length p)"
    by metis
  show ?thesis
  proof (rule DecodeLastRuneInString_multi [OF _ _ b])
    show "p @ q \<noteq> []" using ne by simp
    show "RuneSelf \<le> byte (last (p @ q))" using m ne by simp
    show "DecodeRuneInString (drop (length p) (p @ q)) = (rune_of q, length q)"
      using complete_decode [OF assms, of "[]"] by simp
    show "length p + length q = length (p @ q)" by simp
  qed
qed

lemma lastIndexFunc_snoc:
  assumes "complete q"
  shows "lastIndexFunc (p @ q) = (if sp q then lastIndexFunc p else Some (length p))"
proof -
  have "q \<noteq> []"
    using assms by (simp add: complete_def)
  then show ?thesis
    by (subst lastIndexFunc.simps)
       (simp add: DecodeLastRuneInString_complete [OF assms] sp_def)
qed

lemma lastIndexFunc_spaces:
  "chunked qs \<Longrightarrow> \<forall>q \<in> set qs. sp q \<Longrightarrow> lastIndexFunc (p @ concat qs) = lastIndexFunc p"
proof (induction qs rule: rev_induct)
  case Nil
  show ?case by simp
next
  case (snoc q qs)
  then have "complete q" and "sp q"
    by (auto simp: chunked_iff)
  then have "lastIndexFunc ((p @ concat qs) @ q) = lastIndexFunc (p @ concat qs)"
    by (simp only: lastIndexFunc_snoc if_True)
  then show ?case
    using snoc by (simp add: chunked_iff)
qed

lemma TrimRightFunc_spaces:
  assumes "chunked qs" and "\<forall>q \<in> set qs. sp q"
  shows "TrimRightFunc (concat qs) = []"
proof -
  have "lastIndexFunc ([] @ concat qs) = lastIndexFunc []"
    using assms by (rule lastIndexFunc_spaces)
  then have "lastIndexFunc (concat qs) = None"
    by (simp add: lastIndexFunc.simps)
  then show ?thesis
    by (simp add: TrimRightFunc_def)
qed

lemma TrimRightFunc_kept:
  assumes "complete q" and "\<not> sp q" and "chunked qs" and "\<forall>x \<in> set qs. sp x"
  shows "TrimRightFunc (p @ q @ concat qs) = p @ q"
proof -
  have "lastIndexFunc ((p @ q) @ concat qs) = lastIndexFunc (p @ q)"
    using assms(3,4) by (rule lastIndexFunc_spaces)
  then have i: "lastIndexFunc (p @ q @ concat qs) = Some (length p)"
    using assms(1,2) by (simp add: lastIndexFunc_snoc)
  obtain c cs where q: "q = c # cs"
    using assms(1) by (cases q) (auto simp: complete_def)
  have d: "DecodeRuneInString (q @ concat qs) = (rune_of q, length q)"
    using assms(1) by (rule complete_decode)
  show ?thesis
  proof (cases "RuneSelf \<le> byte c")
    case True
    then show ?thesis
      using i d by (simp add: TrimRightFunc_def q)
  next
    case False
    then have "cs = []"
      using assms(1) complete_head_ascii [of c cs] by (simp add: q)
    then show ?thesis
      using i False by (simp add: TrimRightFunc_def q)
  qed
qed

text \<open>What \<open>TrimSpace\<close> does to a well-formed string, rune by rune.\<close>

lemma TrimSpace_concat:
  assumes "chunked qs"
  shows "TrimSpace (concat qs) = concat (rev (dropWhile sp (rev (dropWhile sp qs))))"
proof -
  define ls where "ls = dropWhile sp qs"
  have cl: "chunked ls"
    using assms set_dropWhileD [of _ sp qs] by (auto simp: chunked_iff ls_def)
  have l: "TrimSpace (concat qs) = TrimRightFunc (concat ls)"
    using assms by (simp add: TrimSpace_def TrimLeftFunc_concat ls_def)
  have split: "ls = rev (dropWhile sp (rev ls)) @ rev (takeWhile sp (rev ls))"
    by (metis rev_append rev_rev_ident takeWhile_dropWhile_id)
  define ks where "ks = rev (dropWhile sp (rev ls))"
  define ts where "ts = rev (takeWhile sp (rev ls))"
  have ts: "chunked ts" "\<forall>x \<in> set ts. sp x"
    using cl set_takeWhileD [of _ sp "rev ls"] by (auto simp: chunked_iff ts_def)
  have ks: "chunked ks"
    using cl set_dropWhileD [of _ sp "rev ls"] by (auto simp: chunked_iff ks_def)
  have "TrimRightFunc (concat ks @ concat ts) = concat ks"
  proof (cases ks rule: rev_cases)
    case Nil
    then show ?thesis using ts by (simp add: TrimRightFunc_spaces)
  next
    case (snoc ks' q)
    then have "dropWhile sp (rev ls) = q # rev ks'"
      by (metis ks_def rev.simps(2) rev_swap)
    then have "\<not> sp q"
      by (metis hd_dropWhile list.distinct(1) list.sel(1))
    moreover have "complete q"
      using ks snoc by (simp add: chunked_iff)
    ultimately have "TrimRightFunc (concat ks' @ q @ concat ts) = concat ks' @ q"
      using ts by (intro TrimRightFunc_kept)
    then show ?thesis
      using snoc by simp
  qed
  then show ?thesis
    using l split by (metis concat_append ks_def ls_def ts_def)
qed

lemma TrimSpace_valid:
  assumes "ValidString s"
  shows "ValidString (TrimSpace s) \<and> \<not> leadingSpace (TrimSpace s) \<and> \<not> trailingSpace (TrimSpace s)"
proof -
  obtain qs where qs: "chunked qs" "s = concat qs"
    using assms ValidString_chunks by blast
  define ls where "ls = dropWhile sp qs"
  define ks where "ks = rev (dropWhile sp (rev ls))"
  have t: "TrimSpace s = concat ks"
    using qs by (simp add: TrimSpace_concat ks_def ls_def)
  have "set ks \<subseteq> set qs"
    using set_dropWhileD [of _ sp qs] set_dropWhileD [of _ sp "rev ls"]
    by (auto simp: ks_def ls_def)
  then have ck: "chunked ks"
    using qs(1) by (auto simp: chunked_iff)
  then have r: "runes (TrimSpace s) = map rune_of ks"
    by (simp add: t runes_concat)
  have last: "ks \<noteq> [] \<Longrightarrow> \<not> sp (last ks)"
  proof -
    assume "ks \<noteq> []"
    then have "dropWhile sp (rev ls) \<noteq> []"
      by (simp add: ks_def)
    then have "\<not> sp (hd (dropWhile sp (rev ls)))"
      by (rule hd_dropWhile)
    then show ?thesis
      using \<open>dropWhile sp (rev ls) \<noteq> []\<close> by (simp add: ks_def last_rev)
  qed
  have first: "ks \<noteq> [] \<Longrightarrow> \<not> sp (hd ks)"
  proof -
    assume ne: "ks \<noteq> []"
    then have lne: "ls \<noteq> []"
      by (auto simp: ks_def)
    then have h: "\<not> sp (hd ls)"
      unfolding ls_def by (rule hd_dropWhile)
    have "ls = ks @ rev (takeWhile sp (rev ls))"
      unfolding ks_def by (metis rev_append rev_rev_ident takeWhile_dropWhile_id)
    then have "hd ls = hd ks"
      using ne by (metis hd_append2)
    then show ?thesis
      using h by simp
  qed
  show ?thesis
  proof (cases ks)
    case Nil
    then show ?thesis
      using t by (simp add: leadingSpace_def trailingSpace_def)
  next
    case (Cons k ks')
    then have "\<not> sp k" and "\<not> sp (last (k # ks'))"
      using first last by auto
    then have "\<not> leadingSpace (TrimSpace s)" and "\<not> trailingSpace (TrimSpace s)"
      using r Cons
      by (auto simp: leadingSpace_def trailingSpace_def sp_def last_map split: list.splits)
    then show ?thesis
      using ck t ValidString_concat by simp
  qed
qed

lemma ValidString_ascii: "\<forall>c \<in> set s. byte c < RuneSelf \<Longrightarrow> ValidString s"
proof (induction s)
  case Nil
  show ?case by simp
next
  case (Cons c s)
  then have "complete [c]" by (simp add: complete_ascii)
  then have "ValidString ([c] @ s) = ValidString s"
    by (rule ValidString_complete_append)
  then show ?case using Cons by simp
qed

lemma ValidString_ascii_append:
  "\<forall>c \<in> set a. byte c < RuneSelf \<Longrightarrow> ValidString (a @ s) = ValidString s"
proof (induction a)
  case Nil
  show ?case by simp
next
  case (Cons c a)
  then have "complete [c]" by (simp add: complete_ascii)
  then have "ValidString ([c] @ (a @ s)) = ValidString (a @ s)"
    by (rule ValidString_complete_append)
  then show ?case using Cons by simp
qed

lemma ValidString_butlast:
  assumes "ValidString s" and "s \<noteq> []" and "byte (last s) < RuneSelf"
  shows "ValidString (butlast s)"
proof -
  obtain qs where qs: "chunked qs" "s = concat qs"
    using assms(1) ValidString_chunks by blast
  with assms(2) have "qs \<noteq> []" by auto
  then obtain ks q where k: "qs = ks @ [q]"
    by (cases qs rule: rev_cases) auto
  then have c: "complete q" and ck: "chunked ks"
    using qs(1) by (auto simp: chunked_iff)
  then have ne: "q \<noteq> []" by (simp add: complete_def)
  have s: "s = concat ks @ q"
    using qs(2) k by simp
  then have l: "last s = last q"
    using ne by simp
  have "length q = 1"
  proof (rule ccontr)
    assume "length q \<noteq> 1"
    then have "2 \<le> length q"
      using ne by (cases q; cases "tl q") auto
    then have "RuneSelf \<le> byte (last q)"
      using complete_multi [OF c] by simp
    then show False using assms(3) l by simp
  qed
  then obtain a where "q = [a]"
    by (cases q) auto
  then have "butlast s = concat ks"
    using s by (simp add: butlast_append)
  then show ?thesis
    using ck ValidString_concat by simp
qed

lemma toValidLoop_valid:
  "ValidString repl \<Longrightarrow> ValidString (toValidLoop repl invalid s)"
proof (induction repl invalid s rule: toValidLoop.induct)
  case (1 repl invalid)
  show ?case by simp
next
  case (2 repl invalid c cs)
  show ?case
  proof (cases "byte c < RuneSelf")
    case True
    then have "complete [c]" by (rule complete_ascii)
    then have "ValidString ([c] @ toValidLoop repl False cs) = ValidString (toValidLoop repl False cs)"
      by (rule ValidString_complete_append)
    then show ?thesis
      using True 2 by simp
  next
    case False
    show ?thesis
    proof (cases "snd (DecodeRuneInString (c # cs)) = 1")
      case True
      then show ?thesis
        using False 2 by (simp add: Let_def ValidString_append)
    next
      case w: False
      then have "DecodeRuneInString (c # cs) \<noteq> (RuneError, 1)"
        by auto
      then have "complete (take (snd (DecodeRuneInString (c # cs))) (c # cs))"
        by (intro complete_take) auto
      then have "ValidString (take (snd (DecodeRuneInString (c # cs))) (c # cs)
                   @ toValidLoop repl False (drop (snd (DecodeRuneInString (c # cs))) (c # cs)))
                 = ValidString (toValidLoop repl False (drop (snd (DecodeRuneInString (c # cs))) (c # cs)))"
        by (rule ValidString_complete_append)
      moreover have "ValidString (toValidLoop repl False (drop (snd (DecodeRuneInString (c # cs))) (c # cs)))"
        using "2.IH"(3) [OF False refl w "2.prems"] .
      ultimately show ?thesis
        using False w by (simp add: Let_def)
    qed
  qed
qed

lemma ValidString_replacement: "ValidString replacement"
  by (simp add: replacement_def utf8_eval)

lemma ToValidUTF8_valid: "ValidString (ToValidUTF8 s replacement)"
  by (simp add: ToValidUTF8_def toValidLoop_valid ValidString_replacement)

lemma ToValidUTF8_id: "ValidString s \<Longrightarrow> ToValidUTF8 s repl = s"
  by (simp add: ToValidUTF8_def)

lemma ensureValidUTF8_valid: "ValidString (ensureValidUTF8 s)"
  by (simp add: ensureValidUTF8_def ToValidUTF8_valid)

lemma ensureValidUTF8_id: "ValidString s \<Longrightarrow> ensureValidUTF8 s = s"
  by (simp add: ensureValidUTF8_def)

lemma foldl_decimal_ge: "n \<le> foldl (\<lambda>n c. 10 * n + (byte c - 48)) n ds"
proof (induction ds arbitrary: n)
  case Nil
  show ?case by simp
next
  case (Cons c ds)
  have "n \<le> 10 * n + (byte c - 48)" by simp
  also have "\<dots> \<le> foldl (\<lambda>n c. 10 * n + (byte c - 48)) (10 * n + (byte c - 48)) ds"
    by (rule Cons.IH)
  finally show ?case by simp
qed

lemma parseUintLoop_digits:
  assumes "\<forall>c \<in> set ds. isDigit c" and "n \<le> maxUint64"
  shows "parseUintLoop n ds =
           (if foldl (\<lambda>n c. 10 * n + (byte c - 48)) n ds \<le> maxUint64
            then (foldl (\<lambda>n c. 10 * n + (byte c - 48)) n ds, None)
            else (maxUint64, Some ErrRange))"
  using assms
proof (induction ds arbitrary: n)
  case Nil
  then show ?case by simp
next
  case (Cons c ds)
  let ?f = "\<lambda>n c. 10 * n + (byte c - 48)"
  have dig: "isDigit c" and digs: "\<forall>c \<in> set ds. isDigit c"
    using Cons.prems by simp_all
  from dig have d: "byte c - 48 \<le> 9"
    unfolding isDigit_def by linarith
  have ge: "10 * n + (byte c - 48) \<le> foldl ?f (10 * n + (byte c - 48)) ds"
    by (rule foldl_decimal_ge)
  show ?case
  proof (cases "maxUint64 div 10 + 1 \<le> n")
    case True
    then have "maxUint64 < 10 * n"
      by (simp add: maxUint64_def)
    with ge have "\<not> foldl ?f (10 * n + (byte c - 48)) ds \<le> maxUint64"
      by linarith
    then show ?thesis
      using True dig by simp
  next
    case False
    then have n10: "n * 10 < 2 ^ 64"
      by (simp add: maxUint64_def)
    show ?thesis
    proof (cases "n * 10 + (byte c - 48) < 2 ^ 64")
      case small: True
      then have le: "10 * n + (byte c - 48) \<le> maxUint64"
        by (simp add: maxUint64_def)
      have "parseUintLoop n (c # ds) = parseUintLoop (10 * n + (byte c - 48)) ds"
        using False dig n10 small le by (simp add: Let_def mult.commute)
      then show ?thesis
        using Cons.IH [OF digs le] by simp
    next
      case big: False
      then have over: "maxUint64 < 10 * n + (byte c - 48)"
        by (simp add: maxUint64_def mult.commute)
      have "(n * 10 + (byte c - 48)) mod 2 ^ 64 = n * 10 + (byte c - 48) - 2 ^ 64"
        using big n10 d by (simp add: mod_if)
      moreover have "n * 10 + (byte c - 48) - 2 ^ 64 < n * 10"
        using big n10 d by simp
      ultimately have "parseUintLoop n (c # ds) = (maxUint64, Some ErrRange)"
        using False dig n10 by (simp add: Let_def)
      moreover have "\<not> foldl ?f (10 * n + (byte c - 48)) ds \<le> maxUint64"
        using over ge by linarith
      ultimately show ?thesis by simp
    qed
  qed
qed

lemma ParseInt_digits:
  assumes "\<forall>c \<in> set ds. isDigit c" and "ds \<noteq> []"
  shows "ParseInt ds =
           (if decimal ds < 2 ^ 63 then (int (decimal ds), None)
            else (9223372036854775807, Some ErrRange))"
proof -
  have "isDigit (hd ds)"
    using assms by simp
  then have sign: "hd ds \<noteq> CHR ''+''" "hd ds \<noteq> CHR ''-''"
    by (auto simp: isDigit_def byte_def)
  have u: "ParseUint ds =
           (if decimal ds \<le> maxUint64 then (decimal ds, None) else (maxUint64, Some ErrRange))"
    using assms parseUintLoop_digits [of ds 0]
    by (simp add: ParseUint_def decimal_def)
  show ?thesis
    using assms(2) sign u
    by (auto simp: ParseInt_def Let_def maxUint64_def)
qed

lemma toValidLoop_complete_append:
  assumes "complete q"
  shows "toValidLoop repl invalid (q @ t) = q @ toValidLoop repl False t"
proof -
  obtain c cs where q: "q = c # cs" using assms by (cases q) (auto simp: complete_def)
  show ?thesis
  proof (cases "byte c < RuneSelf")
    case True
    then have "cs = []"
      using assms complete_head_ascii [of c cs] by (simp add: q)
    then show ?thesis using True by (simp add: q)
  next
    case False
    then have "length q \<noteq> 1"
      using assms complete_single [of c] by (cases cs) (auto simp: q)
    moreover have "DecodeRuneInString (c # cs @ t) = (rune_of q, length q)"
      using complete_decode [OF assms, of t] by (simp add: q)
    moreover have "drop (length q) (c # cs @ t) = t" and "take (length q) (c # cs @ t) = q"
      by (simp_all add: q)
    ultimately show ?thesis
      using False by (simp add: q Let_def)
  qed
qed

lemma toValidLoop_chunks:
  "chunked qs \<Longrightarrow> qs \<noteq> [] \<or> \<not> invalid \<Longrightarrow>
     toValidLoop repl invalid (concat qs @ t) = concat qs @ toValidLoop repl False t"
proof (induction qs arbitrary: invalid)
  case Nil
  then show ?case by simp
next
  case (Cons q qs)
  then have "complete q" and "chunked qs"
    by (simp_all add: chunked_iff)
  then show ?case
    using Cons.IH [of False] by (simp add: toValidLoop_complete_append)
qed

lemma toValidLoop_run:
  assumes "list_all neverStarts bad" and "bad \<noteq> []"
  shows "toValidLoop repl invalid (bad @ t)
           = (if invalid then [] else repl) @ toValidLoop repl True t"
  using assms
proof (induction bad arbitrary: invalid)
  case Nil
  then show ?case by simp
next
  case (Cons c bad)
  then have c: "RuneSelf \<le> byte c" "first (byte c) = None"
    by (simp_all add: neverStarts_def)
  then have d: "DecodeRuneInString (c # bad @ t) = (RuneError, 1)"
    by (simp add: DecodeRuneInString_def)
  show ?case
  proof (cases "bad = []")
    case True
    then show ?thesis using c d by simp
  next
    case False
    then have "toValidLoop repl True (bad @ t) = toValidLoop repl True t"
      using Cons by simp
    then show ?thesis using c d by simp
  qed
qed

lemma ValidString_chunks_append:
  "chunked qs \<Longrightarrow> ValidString (concat qs @ t) = ValidString t"
  by (induction qs) (simp_all add: chunked_iff ValidString_complete_append)

text \<open>
  What the sanitizer does to a run of bytes that start no rune, between two well-formed
  strings: the run becomes one replacement character and the text around it stays.
\<close>

lemma ensureValidUTF8_run:
  assumes "ValidString a" and "ValidString b" and "list_all neverStarts bad" and "bad \<noteq> []"
  shows "ensureValidUTF8 (a @ bad @ b) = a @ replacement @ b"
proof -
  obtain qa where qa: "chunked qa" "a = concat qa"
    using assms(1) ValidString_chunks by blast
  obtain qb where qb: "chunked qb" "b = concat qb"
    using assms(2) ValidString_chunks by blast
  obtain c cs where bad: "bad = c # cs"
    using assms(4) by (cases bad) auto
  then have "RuneSelf \<le> byte c" "first (byte c) = None"
    using assms(3) by (simp_all add: neverStarts_def)
  then have "DecodeRuneInString (c # cs @ b) = (RuneError, 1)"
    by (simp add: DecodeRuneInString_def)
  then have "\<not> ValidString (bad @ b)"
    by (simp add: bad)
  then have inv: "\<not> ValidString (a @ bad @ b)"
    using qa by (simp add: ValidString_chunks_append)
  have "toValidLoop replacement False (a @ bad @ b) = a @ toValidLoop replacement False (bad @ b)"
    using qa toValidLoop_chunks [of qa False replacement "bad @ b"] by simp
  also have "toValidLoop replacement False (bad @ b) = replacement @ toValidLoop replacement True b"
    using assms(3,4) by (simp add: toValidLoop_run)
  also have "toValidLoop replacement True b = b"
  proof (cases "qb = []")
    case True
    then show ?thesis using qb by simp
  next
    case False
    then show ?thesis
      using qb toValidLoop_chunks [of qb True replacement "[]"] by simp
  qed
  finally show ?thesis
    using inv by (simp add: ensureValidUTF8_def ToValidUTF8_def)
qed

section \<open>The scanning loop\<close>

lemma toValidLoop_ascii_append:
  "\<forall>c \<in> set a. byte c < RuneSelf \<Longrightarrow> a \<noteq> [] \<Longrightarrow>
     toValidLoop repl invalid (a @ s) = a @ toValidLoop repl False s"
proof (induction a arbitrary: invalid)
  case Nil
  then show ?case by simp
next
  case (Cons c a)
  then show ?case by (cases a) auto
qed

lemma ensureValidUTF8_ascii_append:
  assumes "\<forall>c \<in> set a. byte c < RuneSelf"
  shows "ensureValidUTF8 (a @ s) = a @ ensureValidUTF8 s"
proof (cases "a = []")
  case True
  then show ?thesis by simp
next
  case False
  have "ValidString (a @ s) = ValidString s"
    using assms by (rule ValidString_ascii_append)
  then show ?thesis
    using assms False
    by (simp add: ensureValidUTF8_def ToValidUTF8_def toValidLoop_ascii_append)
qed

lemma toValidLoop_set:
  "set (toValidLoop repl invalid s) \<subseteq> set s \<union> set repl"
proof (induction repl invalid s rule: toValidLoop.induct)
  case (1 repl invalid)
  show ?case by simp
next
  case (2 repl invalid c cs)
  show ?case
  proof (cases "byte c < RuneSelf")
    case True
    then show ?thesis using 2 by auto
  next
    case False
    show ?thesis
    proof (cases "snd (DecodeRuneInString (c # cs)) = 1")
      case True
      then show ?thesis
        using False "2.IH"(2) [OF False refl True] by (auto simp: Let_def)
    next
      case w: False
      have "set (take (snd (DecodeRuneInString (c # cs))) (c # cs)) \<subseteq> set (c # cs)"
        by (rule set_take_subset)
      moreover have "set (drop (snd (DecodeRuneInString (c # cs))) (c # cs)) \<subseteq> set (c # cs)"
        by (rule set_drop_subset)
      ultimately show ?thesis
        using False w "2.IH"(3) [OF False refl w] by (auto simp: Let_def)
    qed
  qed
qed

lemma toValidLoop_nonempty:
  assumes "s \<noteq> []" and "repl \<noteq> []"
  shows "toValidLoop repl False s \<noteq> []"
proof -
  obtain c cs where s: "s = c # cs" using assms(1) by (cases s) auto
  have "1 \<le> snd (DecodeRuneInString (c # cs))"
    using DecodeRuneInString_width [of "c # cs"] by simp
  then show ?thesis
    using assms(2) by (auto simp: s Let_def)
qed

lemma ensureValidUTF8_nonempty: "s \<noteq> [] \<Longrightarrow> ensureValidUTF8 s \<noteq> []"
  by (simp add: ensureValidUTF8_def ToValidUTF8_def toValidLoop_nonempty replacement_def)

lemma ensureValidUTF8_newline: "newline \<notin> set s \<Longrightarrow> newline \<notin> set (ensureValidUTF8 s)"
  using toValidLoop_set [of replacement False s]
  by (auto simp: ensureValidUTF8_def ToValidUTF8_def replacement_def newline_def)

lemma isDigit_ascii: "isDigit c \<Longrightarrow> byte c < RuneSelf"
  by (simp add: isDigit_def RuneSelf_def)

lemma FindStringSubmatch_headerLine:
  assumes "\<forall>c \<in> set ts. isDigit c" and "\<forall>c \<in> set el. isDigit c"
  shows "FindStringSubmatch (headerLine ts el cmd) =
           (if length ts < 10 \<or> el = [] \<or> takeWhile (\<lambda>c. c \<noteq> newline) cmd = [] then None
            else Some (ts, takeWhile (\<lambda>c. c \<noteq> newline) cmd))"
proof -
  have c: "\<not> isDigit CHR '':''" and s: "\<not> isDigit CHR '';''"
    by (simp_all add: isDigit_def byte_def)
  have t1: "takeWhile isDigit (ts @ CHR '':'' # r) = ts" for r
    using assms(1) c by (simp add: takeWhile_tail)
  have d1: "dropWhile isDigit (ts @ CHR '':'' # r) = CHR '':'' # r" for r
    using assms(1) c by (simp add: dropWhile_append2)
  have t2: "takeWhile isDigit (el @ CHR '';'' # r) = el" for r
    using assms(2) s by (simp add: takeWhile_tail)
  have d2: "dropWhile isDigit (el @ CHR '';'' # r) = CHR '';'' # r" for r
    using assms(2) s by (simp add: dropWhile_append2)
  show ?thesis
    using c s by (simp add: FindStringSubmatch_def headerLine_def t1 d1 t2 d2 Let_def)
qed

lemma ensureValidUTF8_headerLine:
  assumes "\<forall>c \<in> set ts. isDigit c" and "\<forall>c \<in> set el. isDigit c"
  shows "ensureValidUTF8 (headerLine ts el cmd) = headerLine ts el (ensureValidUTF8 cmd)"
proof -
  have "\<forall>c \<in> set ('': '' @ ts @ '':'' @ el @ '';''). byte c < RuneSelf"
    using assms by (auto simp: isDigit_ascii) (simp_all add: byte_def RuneSelf_def)
  then have "ensureValidUTF8 (('': '' @ ts @ '':'' @ el @ '';'') @ cmd)
               = ('': '' @ ts @ '':'' @ el @ '';'') @ ensureValidUTF8 cmd"
    by (rule ensureValidUTF8_ascii_append)
  then show ?thesis
    by (simp add: headerLine_def)
qed

lemma scanLine_header:
  assumes "validHeader (ts, el, cmd)"
  shows "scanLine p (headerLine ts el cmd) =
           \<lparr>allEntries = flush p, currentCommand = ensureValidUTF8 cmd,
             currentTimestamp = fst (ParseInt ts)\<rparr>"
proof -
  have dig: "\<forall>c \<in> set ts. isDigit c" "\<forall>c \<in> set el. isDigit c"
    and len: "10 \<le> length ts" "el \<noteq> []" and cmd: "cmd \<noteq> []" "newline \<notin> set cmd"
    using assms by (auto simp: validHeader_def list_all_iff)
  have ne: "ensureValidUTF8 cmd \<noteq> []"
    using cmd(1) by (rule ensureValidUTF8_nonempty)
  have "newline \<notin> set (ensureValidUTF8 cmd)"
    using cmd(2) by (rule ensureValidUTF8_newline)
  then have tw: "takeWhile (\<lambda>c. c \<noteq> newline) (ensureValidUTF8 cmd) = ensureValidUTF8 cmd"
    by (auto simp: takeWhile_eq_all_conv)
  have "FindStringSubmatch (ensureValidUTF8 (headerLine ts el cmd)) = Some (ts, ensureValidUTF8 cmd)"
    using dig len ne
    by (simp add: ensureValidUTF8_headerLine FindStringSubmatch_headerLine tw)
  then show ?thesis
    by (simp add: scanLine_def ToValidUTF8_id ensureValidUTF8_valid)
qed

lemma flush_open:
  assumes "c \<noteq> []" and "ValidString c"
  shows "flush \<lparr>allEntries = es, currentCommand = c, currentTimestamp = t\<rparr>
           = es @ [\<lparr>Timestamp = t, Command = TrimSpace c\<rparr>]"
  using assms TrimSpace_valid [of c] by (simp add: flush_def ToValidUTF8_id)

lemma flush_scanLine_header:
  assumes "validHeader (ts, el, cmd)"
  shows "flush (scanLine p (headerLine ts el cmd))
           = flush p @ [\<lparr>Timestamp = fst (ParseInt ts), Command = TrimSpace (ensureValidUTF8 cmd)\<rparr>]"
proof -
  have "cmd \<noteq> []"
    using assms by (simp add: validHeader_def)
  then have "ensureValidUTF8 cmd \<noteq> []"
    by (rule ensureValidUTF8_nonempty)
  then show ?thesis
    by (simp add: scanLine_header [OF assms] flush_open ensureValidUTF8_valid)
qed

lemma flush_headers:
  assumes "\<forall>h \<in> set hs. validHeader h"
  shows "flush (foldl scanLine p (map (\<lambda>(ts, el, cmd). headerLine ts el cmd) hs))
           = flush p @ map (\<lambda>(ts, el, cmd).
               \<lparr>Timestamp = fst (ParseInt ts), Command = TrimSpace (ensureValidUTF8 cmd)\<rparr>) hs"
  using assms
proof (induction hs arbitrary: p)
  case Nil
  show ?case by simp
next
  case (Cons h hs)
  obtain ts el cmd where h: "h = (ts, el, cmd)"
    by (cases h) auto
  have v: "validHeader (ts, el, cmd)"
    using Cons.prems h by simp
  have "flush (foldl scanLine (scanLine p (headerLine ts el cmd))
                 (map (\<lambda>(ts, el, cmd). headerLine ts el cmd) hs))
          = flush (scanLine p (headerLine ts el cmd)) @ map (\<lambda>(ts, el, cmd).
               \<lparr>Timestamp = fst (ParseInt ts), Command = TrimSpace (ensureValidUTF8 cmd)\<rparr>) hs"
    using Cons.prems by (intro Cons.IH) simp
  then show ?case
    by (simp add: h flush_scanLine_header [OF v])
qed

lemma ParseInt_header:
  assumes "validHeader (ts, el, cmd)"
  shows "fst (ParseInt ts) = (if decimal ts < 2 ^ 63 then int (decimal ts) else 2 ^ 63 - 1)"
proof -
  have "\<forall>c \<in> set ts. isDigit c" and "ts \<noteq> []"
    using assms by (auto simp: validHeader_def list_all_iff)
  then show ?thesis
    by (simp add: ParseInt_digits)
qed

lemma ParseInt_unparseable:
  assumes "\<forall>c \<in> set ts. isDigit c" and "ts \<noteq> []" and "snd (ParseInt ts) \<noteq> None"
  shows "fst (ParseInt ts) = 9223372036854775807"
  using assms(3) by (simp add: ParseInt_digits [OF assms(1,2)] split: if_splits)

lemma flush_wellFormed:
  assumes "invariant p"
  shows "list_all (\<lambda>e. wellFormed (Command e)) (flush p)"
proof -
  have "wellFormed (ToValidUTF8 (TrimSpace (currentCommand p)) replacement)"
    using assms TrimSpace_valid [of "currentCommand p"]
    by (simp add: invariant_def wellFormed_def ToValidUTF8_id)
  then show ?thesis
    using assms by (simp add: flush_def invariant_def)
qed

lemma scanLine_invariant:
  assumes "invariant p"
  shows "invariant (scanLine p l)"
proof (cases "FindStringSubmatch (ensureValidUTF8 l)")
  case (Some m)
  obtain m1 m2 where "m = (m1, m2)" by (cases m)
  then show ?thesis
    using Some flush_wellFormed [OF assms]
    by (simp add: scanLine_def invariant_def ToValidUTF8_valid)
next
  case None
  have line: "ValidString (ensureValidUTF8 l)"
    by (rule ensureValidUTF8_valid)
  have cur: "ValidString (currentCommand p)"
    using assms by (simp add: invariant_def)
  have esc: "ValidString (butlast (currentCommand p) @ ensureValidUTF8 l)"
    if "HasSuffix_backslash (currentCommand p)"
  proof -
    have "currentCommand p \<noteq> []" and "byte (last (currentCommand p)) < RuneSelf"
      using that by (simp_all add: HasSuffix_backslash_def backslash_def byte_def RuneSelf_def)
    then have "ValidString (butlast (currentCommand p))"
      using cur by (intro ValidString_butlast)
    then show ?thesis
      using line by (rule ValidString_append)
  qed
  have "ValidString [newline]"
    by (rule ValidString_ascii) (simp add: newline_def byte_def RuneSelf_def)
  then have "ValidString ([newline] @ ensureValidUTF8 l)"
    using line by (rule ValidString_append)
  with cur have lit: "ValidString (currentCommand p @ [newline] @ ensureValidUTF8 l)"
    by (rule ValidString_append)
  show ?thesis
    using None assms esc lit
    by (auto simp: scanLine_def invariant_def Let_def)
qed

lemma foldl_scanLine_invariant:
  "invariant p \<Longrightarrow> invariant (foldl scanLine p ls)"
  by (induction ls arbitrary: p) (simp_all add: scanLine_invariant)

lemma invariant_initial: "invariant initial"
  by (simp add: invariant_def initial_def)

lemma foldl_scanLine_orphans:
  assumes "\<forall>l \<in> set orphans. FindStringSubmatch (ensureValidUTF8 l) = None"
    and "currentCommand p = []"
  shows "foldl scanLine p orphans = p"
  using assms
proof (induction orphans)
  case Nil
  show ?case by simp
next
  case (Cons l orphans)
  then have "scanLine p l = p"
    by (simp add: scanLine_def)
  then show ?case
    using Cons by simp
qed

section \<open>The sanitizer and the assembler of the specification\<close>

lemma joinMalformed_source:
  "concat (map source (joinMalformed c ps)) = c # concat (map source ps)"
  by (induction c ps rule: joinMalformed.induct) simp_all

lemma pieces_source: "concat (map source (pieces s)) = s"
proof (induction s rule: pieces.induct)
  case 1
  show ?case by simp
next
  case (2 c cs)
  obtain r w where d: "DecodeRuneInString (c # cs) = (r, w)"
    by (cases "DecodeRuneInString (c # cs)")
  show ?case
  proof (cases "r = RuneError \<and> w = 1")
    case True
    then show ?thesis
      using d "2.IH"(1) [OF d [symmetric] True] by (simp add: joinMalformed_source)
  next
    case False
    have "take w (c # cs) @ concat (map source (pieces (drop w (c # cs)))) = c # cs"
      using "2.IH"(2) [OF d [symmetric] False] by simp
    then show ?thesis
      using d False by auto
  qed
qed

lemma joinMalformed_cut:
  "list_all wellCut ps \<Longrightarrow> separated ps \<Longrightarrow>
     list_all wellCut (joinMalformed c ps) \<and> separated (joinMalformed c ps)"
  by (induction c ps rule: joinMalformed.induct) (auto elim: separated.elims)

lemma pieces_cut: "list_all wellCut (pieces s) \<and> separated (pieces s)"
proof (induction s rule: pieces.induct)
  case 1
  show ?case by simp
next
  case (2 c cs)
  obtain r w where d: "DecodeRuneInString (c # cs) = (r, w)"
    by (cases "DecodeRuneInString (c # cs)")
  show ?case
  proof (cases "r = RuneError \<and> w = 1")
    case True
    then show ?thesis
      using d "2.IH"(1) [OF d [symmetric] True] joinMalformed_cut by simp
  next
    case False
    have "complete (take (snd (DecodeRuneInString (c # cs))) (c # cs))"
      using d False by (intro complete_take) auto
    then have "complete (take w (c # cs))"
      using d by simp
    moreover have "separated (Rune q # ps) = separated ps" for q ps
      by (cases ps) simp_all
    ultimately show ?thesis
      using d False "2.IH"(2) [OF d [symmetric] False] by auto
  qed
qed

lemma joinMalformed_shown:
  "concat (map shown (joinMalformed c ps))
     = replacementCharacter @ concat (map shown (dropMalformed ps))"
  by (induction c ps rule: joinMalformed.induct) simp_all

lemma dropMalformed_join: "dropMalformed (joinMalformed c ps) = dropMalformed ps"
  by (induction c ps rule: joinMalformed.induct) simp_all

lemma DecodeRuneInString_error:
  assumes "\<not> byte c < RuneSelf"
  shows "snd (DecodeRuneInString (c # cs)) = 1 \<longleftrightarrow> DecodeRuneInString (c # cs) = (RuneError, 1)"
  using assms
  by (auto simp: DecodeRuneInString_def Let_def split: option.splits if_splits)

lemma DecodeRuneInString_ascii_good:
  assumes "byte c < RuneSelf"
  shows "DecodeRuneInString (c # cs) = (byte c, 1) \<and> byte c \<noteq> RuneError"
  using assms by (simp add: DecodeRuneInString_def RuneSelf_def RuneError_def)

lemma toValidLoop_pieces:
  "repl = replacementCharacter \<Longrightarrow>
   toValidLoop repl invalid s
     = concat (map shown (if invalid then dropMalformed (pieces s) else pieces s))"
proof (induction repl invalid s rule: toValidLoop.induct)
  case (1 repl invalid)
  show ?case by simp
next
  case (2 repl invalid c cs)
  show ?case
  proof (cases "byte c < RuneSelf")
    case True
    then have "pieces (c # cs) = Rune [c] # pieces cs"
      using DecodeRuneInString_ascii_good [OF True, of cs] by simp
    then show ?thesis
      using True "2.IH"(1) [OF True "2.prems"] by simp
  next
    case False
    show ?thesis
    proof (cases "snd (DecodeRuneInString (c # cs)) = 1")
      case True
      then have "DecodeRuneInString (c # cs) = (RuneError, 1)"
        using DecodeRuneInString_error [OF False] by simp
      then have p: "pieces (c # cs) = joinMalformed c (pieces cs)"
        by simp
      have "toValidLoop repl invalid (c # cs)
              = (if invalid then [] else repl) @ toValidLoop repl True cs"
        using False True by (simp add: Let_def)
      also have "toValidLoop repl True cs = concat (map shown (dropMalformed (pieces cs)))"
        using "2.IH"(2) [OF False refl True "2.prems"] by simp
      finally show ?thesis
        using p "2.prems" by (simp add: joinMalformed_shown dropMalformed_join)
    next
      case w: False
      then have ne: "DecodeRuneInString (c # cs) \<noteq> (RuneError, 1)"
        using DecodeRuneInString_error [OF False] by simp
      obtain r where d: "DecodeRuneInString (c # cs) = (r, snd (DecodeRuneInString (c # cs)))"
        by (cases "DecodeRuneInString (c # cs)") simp
      have p: "pieces (c # cs) = Rune (take (snd (DecodeRuneInString (c # cs))) (c # cs))
                  # pieces (drop (snd (DecodeRuneInString (c # cs))) (c # cs))"
        using w by (subst pieces.simps, subst d) simp
      have "toValidLoop repl invalid (c # cs)
              = take (snd (DecodeRuneInString (c # cs))) (c # cs)
                  @ toValidLoop repl False (drop (snd (DecodeRuneInString (c # cs))) (c # cs))"
        using False w by (simp add: Let_def)
      then show ?thesis
        using p "2.IH"(3) [OF False refl w "2.prems"] by simp
    qed
  qed
qed

lemma replaceMalformed_valid: "ValidString s \<Longrightarrow> replaceMalformed s = s"
proof (induction s rule: ValidString.induct)
  case 1
  show ?case by (simp add: replaceMalformed_def)
next
  case (2 c cs)
  obtain r w where d: "DecodeRuneInString (c # cs) = (r, w)"
    by (cases "DecodeRuneInString (c # cs)")
  with "2.prems" have good: "\<not> (r = RuneError \<and> w = 1)" and v: "ValidString (drop w (c # cs))"
    by (auto split: if_splits)
  have "replaceMalformed (drop w (c # cs)) = drop w (c # cs)"
    using "2.IH" [OF d [symmetric] good v] .
  then have "take w (c # cs) @ concat (map shown (pieces (drop w (c # cs)))) = c # cs"
    by (simp add: replaceMalformed_def)
  then show ?case
    using d good by (auto simp: replaceMalformed_def)
qed

lemma ensureValidUTF8_replaceMalformed: "ensureValidUTF8 s = replaceMalformed s"
proof (cases "ValidString s")
  case True
  then show ?thesis
    by (simp add: ensureValidUTF8_def replaceMalformed_valid)
next
  case False
  then show ?thesis
    using toValidLoop_pieces [of replacement False s]
    by (simp add: ensureValidUTF8_def ToValidUTF8_def replaceMalformed_def
          replacement_def replacementCharacter_def)
qed

lemma replaceMalformed_fixed: "replaceMalformed s = s \<longleftrightarrow> ValidString s"
  using ensureValidUTF8_valid [of s] replaceMalformed_valid [of s]
  by (auto simp: ensureValidUTF8_replaceMalformed)

lemma ValidString_before_ascii:
  assumes "ValidString (a @ c # b)" and "byte c < RuneSelf"
  shows "ValidString a"
proof -
  obtain qs where qs: "chunked qs" "a @ c # b = concat qs"
    using assms(1) ValidString_chunks by blast
  from qs show ?thesis
  proof (induction qs arbitrary: a)
    case Nil
    then show ?case by simp
  next
    case (Cons q qs)
    then have cq: "complete q" and cqs: "chunked qs"
      by (simp_all add: chunked_iff)
    have eq: "a @ c # b = q @ concat qs"
      using Cons.prems by simp
    show ?case
    proof (cases "length q \<le> length a")
      case True
      then have a: "a = q @ drop (length q) a"
        using eq by (metis append_eq_append_conv_if append_take_drop_id)
      then have "drop (length q) a @ c # b = concat qs"
        using eq by (metis append.assoc same_append_eq)
      then have "ValidString (drop (length q) a)"
        using Cons.IH [OF cqs] by simp
      then have "ValidString (q @ drop (length q) a)"
        using cq by (simp add: ValidString_complete_append)
      then show ?thesis
        using a by simp
    next
      case False
      then have la: "length a < length q" by simp
      have "q ! length a = (a @ c # b) ! length a"
        using eq la by (simp add: nth_append)
      then have qc: "q ! length a = c" by simp
      show ?thesis
      proof (cases "a = []")
        case True
        then show ?thesis by simp
      next
        case ne: False
        then have "1 \<le> length a" and "2 \<le> length q"
          using la by (cases a; simp)+
        then have "\<not> RuneStart (q ! length a)"
          using complete_multi [OF cq] la by simp
        then show ?thesis
          using qc assms(2) by (simp add: RuneStart_def RuneSelf_def)
      qed
    qed
  qed
qed

lemma FindStringSubmatch_shape:
  assumes "FindStringSubmatch line = Some (m1, m2)"
  shows "\<exists>pre post. line = pre @ m2 @ post \<and> (\<forall>c \<in> set pre. byte c < RuneSelf)
           \<and> (post = [] \<or> hd post = newline)"
proof -
  obtain r where l: "line = CHR '':'' # CHR '' '' # r"
    using assms
    by (auto simp: FindStringSubmatch_def split: list.splits if_splits)
  define ts where "ts = takeWhile isDigit r"
  obtain r2 where r1: "dropWhile isDigit r = CHR '':'' # r2"
    using assms l
    by (auto simp: FindStringSubmatch_def Let_def split: list.splits if_splits)
  define el where "el = takeWhile isDigit r2"
  obtain r4 where r3: "dropWhile isDigit r2 = CHR '';'' # r4"
    using assms l r1
    by (auto simp: FindStringSubmatch_def Let_def split: list.splits if_splits)
  have m2: "m2 = takeWhile (\<lambda>c. c \<noteq> newline) r4"
    using assms l r1 r3
    by (auto simp: FindStringSubmatch_def Let_def split: list.splits if_splits)
  define post where "post = dropWhile (\<lambda>c. c \<noteq> newline) r4"
  have "r = ts @ CHR '':'' # r2"
    unfolding ts_def using r1 by (metis takeWhile_dropWhile_id)
  moreover have "r2 = el @ CHR '';'' # r4"
    unfolding el_def using r3 by (metis takeWhile_dropWhile_id)
  moreover have "r4 = m2 @ post"
    by (simp add: m2 post_def)
  ultimately have "line = ('': '' @ ts @ '':'' @ el @ '';'') @ m2 @ post"
    using l by simp
  moreover have "\<forall>c \<in> set ('': '' @ ts @ '':'' @ el @ '';''). byte c < RuneSelf"
  proof -
    have "\<forall>c \<in> set ts. byte c < RuneSelf" "\<forall>c \<in> set el. byte c < RuneSelf"
      using set_takeWhileD [of _ isDigit] by (auto simp: ts_def el_def isDigit_ascii)
    then show ?thesis
      by (auto simp: byte_def RuneSelf_def)
  qed
  moreover have "post = [] \<or> hd post = newline"
    unfolding post_def using hd_dropWhile [of "\<lambda>c. c \<noteq> newline" r4] by auto
  ultimately show ?thesis by blast
qed

lemma FindStringSubmatch_valid:
  assumes "FindStringSubmatch line = Some (m1, m2)" and "ValidString line"
  shows "ValidString m2"
proof -
  obtain pre post where s: "line = pre @ m2 @ post" "\<forall>c \<in> set pre. byte c < RuneSelf"
      "post = [] \<or> hd post = newline"
    using FindStringSubmatch_shape [OF assms(1)] by blast
  have v: "ValidString (m2 @ post)"
    using assms(2) s(1,2) by (simp add: ValidString_ascii_append)
  show ?thesis
  proof (cases post)
    case Nil
    then show ?thesis using v by simp
  next
    case (Cons c post')
    then have "c = newline" using s(3) by simp
    then have "byte c < RuneSelf"
      by (simp add: newline_def byte_def RuneSelf_def)
    then show ?thesis
      using v Cons ValidString_before_ascii [of m2 c post'] by simp
  qed
qed

lemma flush_emit: "ValidString (currentCommand p) \<Longrightarrow> flush p = emit p"
  using TrimSpace_valid [of "currentCommand p"]
  by (simp add: flush_def emit_def ToValidUTF8_id)

lemma scanLine_joinLine:
  assumes "invariant p"
  shows "scanLine p l = joinLine p (replaceMalformed l)"
proof -
  have cur: "ValidString (currentCommand p)"
    using assms by (simp add: invariant_def)
  have e: "ensureValidUTF8 l = replaceMalformed l"
    by (rule ensureValidUTF8_replaceMalformed)
  show ?thesis
  proof (cases "FindStringSubmatch (replaceMalformed l)")
    case None
    then show ?thesis
      by (simp add: scanLine_def joinLine_def e Let_def)
  next
    case (Some m)
    obtain m1 m2 where m: "m = (m1, m2)" by (cases m)
    have "ValidString (replaceMalformed l)"
      using ensureValidUTF8_valid [of l] e by simp
    then have "ValidString m2"
      using Some m FindStringSubmatch_valid by simp
    then show ?thesis
      using Some m cur
      by (simp add: scanLine_def joinLine_def e flush_emit ToValidUTF8_id)
  qed
qed

lemma foldl_scanLine_joinLine:
  "invariant p \<Longrightarrow> foldl scanLine p ls = foldl joinLine p (map replaceMalformed ls)"
proof (induction ls arbitrary: p)
  case Nil
  show ?case by simp
next
  case (Cons l ls)
  have "invariant (scanLine p l)"
    using Cons.prems by (rule scanLine_invariant)
  then show ?case
    using Cons.IH [of "scanLine p l"] scanLine_joinLine [OF Cons.prems, of l] by simp
qed

lemma flush_assemble:
  "flush (foldl scanLine initial ls) = assemble (map replaceMalformed ls)"
proof -
  have "invariant (foldl scanLine initial ls)"
    by (intro foldl_scanLine_invariant invariant_initial)
  then have "flush (foldl scanLine initial ls) = emit (foldl scanLine initial ls)"
    by (simp add: flush_emit invariant_def)
  then show ?thesis
    by (simp add: assemble_def foldl_scanLine_joinLine invariant_initial)
qed

lemma runes_replacementCharacter: "runes replacementCharacter = [0xFFFD]"
  by (simp add: replacementCharacter_def utf8_eval)

lemma pieces_example:
  "pieces (''a'' @ [CHR 0xFF, CHR 0xFE] @ ''b'' @ [CHR 0xE2, CHR 0x82, CHR 0xAC] @ [CHR 0xE2, CHR 0x82])
     = [Rune ''a'', Malformed [CHR 0xFF, CHR 0xFE], Rune ''b'',
        Rune [CHR 0xE2, CHR 0x82, CHR 0xAC], Malformed [CHR 0xE2, CHR 0x82]]"
  by (simp add: utf8_eval)

section \<open>The window\<close>

text \<open>
  C4. For every sequence of records and every integer limit: when \<open>limit \<le> 0\<close> or the
  sequence has at most \<open>limit\<close> records, \<open>applyLimitFilter\<close> returns the sequence
  unchanged; otherwise it returns the last \<open>limit\<close> records in their order, the oldest
  \<open>length entries - limit\<close> records being the ones dropped.
\<close>

theorem applyLimitFilter_window:
  "(limit \<le> 0 \<or> int (length entries) \<le> limit \<longrightarrow> applyLimitFilter entries limit = entries) \<and>
   (0 < limit \<and> limit < int (length entries) \<longrightarrow>
      length (applyLimitFilter entries limit) = nat limit \<and>
      (\<exists>oldest. length oldest = length entries - nat limit \<and>
         entries = oldest @ applyLimitFilter entries limit))"
proof (intro conjI impI)
  assume "limit \<le> 0 \<or> int (length entries) \<le> limit"
  then show "applyLimitFilter entries limit = entries"
    by (auto simp: applyLimitFilter_def)
next
  assume h: "0 < limit \<and> limit < int (length entries)"
  then have eq: "applyLimitFilter entries limit = drop (length entries - nat limit) entries"
    by (simp add: applyLimitFilter_def nat_diff_distrib')
  from h show "length (applyLimitFilter entries limit) = nat limit"
    unfolding eq by simp linarith
  have "length (take (length entries - nat limit) entries) = length entries - nat limit"
    by simp
  moreover have "entries = take (length entries - nat limit) entries @ applyLimitFilter entries limit"
    unfolding eq by simp
  ultimately show "\<exists>oldest. length oldest = length entries - nat limit \<and>
         entries = oldest @ applyLimitFilter entries limit"
    by blast
qed

theorem applyLimitFilter_window_witness:
  "applyLimitFilter
     [\<lparr>Timestamp = 1, Command = ''a''\<rparr>, \<lparr>Timestamp = 2, Command = ''b''\<rparr>,
      \<lparr>Timestamp = 3, Command = ''c''\<rparr>] 0
   = [\<lparr>Timestamp = 1, Command = ''a''\<rparr>, \<lparr>Timestamp = 2, Command = ''b''\<rparr>,
      \<lparr>Timestamp = 3, Command = ''c''\<rparr>]
   \<and> length (applyLimitFilter
     [\<lparr>Timestamp = 1, Command = ''a''\<rparr>, \<lparr>Timestamp = 2, Command = ''b''\<rparr>,
      \<lparr>Timestamp = 3, Command = ''c''\<rparr>] 2) = 2"
  using applyLimitFilter_window
          [of 0 "[\<lparr>Timestamp = 1, Command = ''a''\<rparr>, \<lparr>Timestamp = 2, Command = ''b''\<rparr>,
                  \<lparr>Timestamp = 3, Command = ''c''\<rparr>]"]
        applyLimitFilter_window
          [of 2 "[\<lparr>Timestamp = 1, Command = ''a''\<rparr>, \<lparr>Timestamp = 2, Command = ''b''\<rparr>,
                  \<lparr>Timestamp = 3, Command = ''c''\<rparr>]"]
  by simp

section \<open>The parser on given streams\<close>

text \<open>
  C9. For the empty stream, which yields no line and no read error, \<open>parseHistory\<close>
  returns the empty sequence of records and no error.
\<close>

theorem parseHistory_empty:
  "parseHistory \<lparr>lines = [], Err = None\<rparr> = Inr []"
  by (simp add: parseHistory_def flush_def initial_def)

text \<open>
  C6. For every stream whose read fails, after any lines whatever, \<open>parseHistory\<close>
  returns the error alone: no record built from the lines read before the failure
  reaches the caller.
\<close>

theorem parseHistory_read_error:
  "parseHistory \<lparr>lines = ls, Err = Some e\<rparr> = Inl (ErrorReadingHistoryData e)"
  by (simp add: parseHistory_def)

text \<open>
  C3. The header line \<open>: 1700000200:0;echo hello\<close> followed by the line \<open>world\<close>
  gives one record, whose command is \<open>echo hello\<close>, a newline, \<open>world\<close>.
\<close>

theorem parseHistory_literal_join:
  "parseHistory \<lparr>lines = ['': 1700000200:0;echo hello'', ''world''], Err = None\<rparr>
     = Inr [\<lparr>Timestamp = 1700000200, Command = ''echo hello'' @ [newline] @ ''world''\<rparr>]"
proof -
  have "TrimSpace (''echo hello'' @ [newline] @ ''world'') = ''echo hello'' @ [newline] @ ''world''"
    by (rule TrimSpace_ascii_ends) (simp_all add: utf8_eval)
  then show ?thesis
    by (simp add: parser_eval utf8_eval)
qed

lemma parseHistory_escaped_stream:
  "parseHistory escaped_stream
     = Inr [\<lparr>Timestamp = 1700000100,
             Command = ''git commit -m '' @ [quote] @ ''fix bug'' @ [quote]\<rparr>]"
proof -
  have "TrimSpace (''git commit -m '' @ [quote] @ ''fix bug'' @ [quote])
          = ''git commit -m '' @ [quote] @ ''fix bug'' @ [quote]"
    by (rule TrimSpace_ascii_ends) (simp_all add: utf8_eval quote_def)
  then show ?thesis
    by (simp add: escaped_stream_def parser_eval utf8_eval quote_def)
qed

text \<open>
  C2, as amended. The header line \<open>: 1700000100:0;git commit -m 'fix \\<close> followed by
  the line \<open>bug'\<close> gives one record with timestamp 1700000100 and command
  \<open>git commit -m 'fix bug'\<close>: the backslash is removed and the next line is appended
  with no separator and no newline; the space before the backslash stays.
\<close>

theorem parseHistory_escaped_join:
  "parseHistory escaped_stream
     = Inr [\<lparr>Timestamp = 1700000100,
             Command = ''git commit -m '' @ [quote] @ ''fix bug'' @ [quote]\<rparr>]
   \<and> newline \<notin> set (''git commit -m '' @ [quote] @ ''fix bug'' @ [quote])
   \<and> backslash \<notin> set (''git commit -m '' @ [quote] @ ''fix bug'' @ [quote])"
  by (simp add: parseHistory_escaped_stream) (simp add: quote_def newline_def backslash_def)

text \<open>
  C2 as stated fails: the command of that record is not \<open>git commit -m 'fixbug'\<close>.
\<close>

theorem parseHistory_escaped_join_counterexample:
  "parseHistory escaped_stream
     \<noteq> Inr [\<lparr>Timestamp = 1700000100,
             Command = ''git commit -m '' @ [quote] @ ''fixbug'' @ [quote]\<rparr>]"
  by (simp add: parseHistory_escaped_stream)

section \<open>The parser on every stream\<close>

text \<open>
  C1. For every stream that consists of valid header lines only and has no read error,
  \<open>parseHistory\<close> returns one record per line, in the order of the lines. The
  timestamp of a record is what \<open>strconv.ParseInt\<close> gives for the digit field: the
  number the digits denote when it is below \<open>2 ^ 63\<close>, and the largest 64-bit signed
  integer otherwise. Its command is the remainder of the line, as the parser reads it
  through \<open>ensureValidUTF8\<close>, with the white space at both ends trimmed.
\<close>

theorem parseHistory_headers:
  assumes "\<forall>h \<in> set hs. validHeader h"
  shows "parseHistory \<lparr>lines = map (\<lambda>(ts, el, cmd). headerLine ts el cmd) hs, Err = None\<rparr>
           = Inr (map (\<lambda>(ts, el, cmd).
                    \<lparr>Timestamp = (if decimal ts < 2 ^ 63 then int (decimal ts) else 2 ^ 63 - 1),
                      Command = TrimSpace (ensureValidUTF8 cmd)\<rparr>) hs)"
proof -
  have "map (\<lambda>(ts, el, cmd).
          \<lparr>Timestamp = fst (ParseInt ts), Command = TrimSpace (ensureValidUTF8 cmd)\<rparr>) hs
        = map (\<lambda>(ts, el, cmd).
            \<lparr>Timestamp = (if decimal ts < 2 ^ 63 then int (decimal ts) else 2 ^ 63 - 1),
              Command = TrimSpace (ensureValidUTF8 cmd)\<rparr>) hs"
    using assms by (intro map_cong refl) (auto simp: ParseInt_header)
  moreover have "flush initial = []"
    by (simp add: flush_def initial_def)
  ultimately show ?thesis
    using flush_headers [OF assms, of initial] by (simp add: parseHistory_def)
qed

theorem parseHistory_headers_witness:
  "parseHistory
     \<lparr>lines = ['': 1700000000:0;ls -la'', '': 1700000100:15; git status '',
               '': 99999999999999999999:0;date''],
      Err = None\<rparr>
   = Inr [\<lparr>Timestamp = 1700000000, Command = ''ls -la''\<rparr>,
          \<lparr>Timestamp = 1700000100, Command = ''git status''\<rparr>,
          \<lparr>Timestamp = 9223372036854775807, Command = ''date''\<rparr>]"
  using parseHistory_headers
          [of "[(''1700000000'', ''0'', ''ls -la''), (''1700000100'', ''15'', '' git status ''),
                (''99999999999999999999'', ''0'', ''date'')]"]
  by (simp add: validHeader_def headerLine_def isDigit_def newline_def decimal_def
        ensureValidUTF8_def trim_eval utf8_eval)

lemma overflow_stream:
  "parseHistory \<lparr>lines = ['': 99999999999999999999:0;ls''], Err = None\<rparr>
     = Inr [\<lparr>Timestamp = 9223372036854775807, Command = ''ls''\<rparr>]"
  by (simp add: parser_eval trim_eval utf8_eval)

lemma overflow_field: "snd (ParseInt ''99999999999999999999'') = Some ErrRange"
  by (simp add: ParseInt_def ParseUint_def isDigit_def byte_def maxUint64_def)

text \<open>
  C5, as amended. A header line whose digit field \<open>strconv.ParseInt\<close> rejects does not
  make the parse fail: the line starts a record that keeps its command text, and the
  timestamp of that record is 9223372036854775807, the value that \<open>ParseInt\<close> returns
  with its range error. The first half is one iteration of the loop from any state, the
  second the whole parse when the line comes last.
\<close>

theorem unparseable_timestamp:
  assumes "validHeader (ts, el, cmd)" and "snd (ParseInt ts) \<noteq> None"
  shows "scanLine p (headerLine ts el cmd) =
           \<lparr>allEntries = flush p, currentCommand = ensureValidUTF8 cmd,
             currentTimestamp = 9223372036854775807\<rparr>
         \<and> parseHistory \<lparr>lines = ls @ [headerLine ts el cmd], Err = None\<rparr>
             = Inr (flush (foldl scanLine initial ls) @
                 [\<lparr>Timestamp = 9223372036854775807,
                   Command = TrimSpace (ensureValidUTF8 cmd)\<rparr>])"
proof -
  have "\<forall>c \<in> set ts. isDigit c" and "ts \<noteq> []"
    using assms(1) by (auto simp: validHeader_def list_all_iff)
  then have t: "fst (ParseInt ts) = 9223372036854775807"
    using assms(2) by (rule ParseInt_unparseable)
  have "flush (scanLine (foldl scanLine initial ls) (headerLine ts el cmd))
          = flush (foldl scanLine initial ls) @
              [\<lparr>Timestamp = 9223372036854775807, Command = TrimSpace (ensureValidUTF8 cmd)\<rparr>]"
    using t by (simp add: flush_scanLine_header [OF assms(1)])
  then show ?thesis
    using t by (simp add: parseHistory_def scanLine_header [OF assms(1), of p])
qed

theorem unparseable_timestamp_witness:
  "validHeader (''99999999999999999999'', ''0'', ''ls'')
   \<and> snd (ParseInt ''99999999999999999999'') \<noteq> None
   \<and> scanLine initial '': 99999999999999999999:0;ls''
       = \<lparr>allEntries = [], currentCommand = ''ls'', currentTimestamp = 9223372036854775807\<rparr>
   \<and> parseHistory \<lparr>lines = ['': 1700000000:0;pwd'', '': 99999999999999999999:0;ls''], Err = None\<rparr>
       = Inr [\<lparr>Timestamp = 1700000000, Command = ''pwd''\<rparr>,
              \<lparr>Timestamp = 9223372036854775807, Command = ''ls''\<rparr>]"
proof -
  have v: "validHeader (''99999999999999999999'', ''0'', ''ls'')"
    by (simp add: validHeader_def isDigit_def byte_def newline_def)
  have f: "snd (ParseInt ''99999999999999999999'') \<noteq> None"
    by (simp add: overflow_field)
  have "foldl scanLine initial ['': 1700000000:0;pwd'']
          = \<lparr>allEntries = [], currentCommand = ''pwd'', currentTimestamp = 1700000000\<rparr>"
    by (simp add: parser_eval utf8_eval)
  then have "flush (foldl scanLine initial ['': 1700000000:0;pwd''])
          = [\<lparr>Timestamp = 1700000000, Command = ''pwd''\<rparr>]"
    by (simp add: flush_def ToValidUTF8_def trim_eval utf8_eval)
  moreover have "flush initial = []"
    by (simp add: flush_def initial_def)
  moreover have "TrimSpace (ensureValidUTF8 ''ls'') = ''ls''"
    by (simp add: ensureValidUTF8_def trim_eval utf8_eval)
  moreover have "ensureValidUTF8 ''ls'' = ''ls''"
    by (simp add: ensureValidUTF8_def utf8_eval)
  ultimately show ?thesis
    using v f unparseable_timestamp [OF v f, of initial "['': 1700000000:0;pwd'']"]
    by (simp add: headerLine_def)
qed

text \<open>
  C5 as stated fails: the digit field \<open>99999999999999999999\<close> is rejected with a range
  error, and the timestamp of its record is 9223372036854775807, not 0.
\<close>

theorem unparseable_timestamp_counterexample:
  "snd (ParseInt ''99999999999999999999'') = Some ErrRange
   \<and> parseHistory \<lparr>lines = ['': 99999999999999999999:0;ls''], Err = None\<rparr>
       = Inr [\<lparr>Timestamp = 9223372036854775807, Command = ''ls''\<rparr>]
   \<and> parseHistory \<lparr>lines = ['': 99999999999999999999:0;ls''], Err = None\<rparr>
       \<noteq> Inr [\<lparr>Timestamp = 0, Command = ''ls''\<rparr>]"
  by (simp add: overflow_stream overflow_field)

lemma parseHistory_sample_stream:
  "parseHistory sample_stream
     = Inr [\<lparr>Timestamp = 1700000000,
             Command = ''ls '' @ [newline] @ ''-la '' @ [CHR 0xEF, CHR 0xBF, CHR 0xBD] @ ''x''
                         @ [CHR 0xEF, CHR 0xBF, CHR 0xBD]\<rparr>]"
  by (simp add: sample_stream_def parser_eval trim_eval utf8_eval)

text \<open>
  C7. For every stream, the records that \<open>parseHistory\<close> returns are the records
  assembled from the lines of the stream in which every malformed byte subsequence has
  been replaced by the replacement character U+FFFD: no other byte of the source is
  changed before the text of a record is joined and trimmed. The command of every such
  record, the one emitted at the end of the stream included, is valid UTF-8 and has no
  white space at its start nor at its end.
\<close>

theorem parseHistory_commands:
  assumes "parseHistory reader = Inr entries"
  shows "entries = assemble (map replaceMalformed (lines reader))
         \<and> (\<forall>e \<in> set entries.
               ValidString (Command e) \<and> \<not> leadingSpace (Command e)
                 \<and> \<not> trailingSpace (Command e))"
proof -
  have en: "entries = flush (foldl scanLine initial (lines reader))"
    using assms by (simp add: parseHistory_def Let_def split: option.splits)
  moreover have "list_all (\<lambda>e. wellFormed (Command e)) (flush (foldl scanLine initial (lines reader)))"
    by (intro flush_wellFormed foldl_scanLine_invariant invariant_initial)
  ultimately have "\<forall>e \<in> set entries. wellFormed (Command e)"
    by (simp add: list_all_iff)
  then show ?thesis
    using en by (simp add: wellFormed_def flush_assemble)
qed

theorem parseHistory_commands_witness:
  "parseHistory sample_stream
     = Inr [\<lparr>Timestamp = 1700000000,
             Command = ''ls '' @ [newline] @ ''-la '' @ [CHR 0xEF, CHR 0xBF, CHR 0xBD] @ ''x''
                         @ [CHR 0xEF, CHR 0xBF, CHR 0xBD]\<rparr>]
   \<and> map replaceMalformed (lines sample_stream)
       = ['': 1700000000:0; ls '',
          ''-la '' @ [CHR 0xEF, CHR 0xBF, CHR 0xBD] @ ''x'' @ [CHR 0xEF, CHR 0xBF, CHR 0xBD] @ ''  '']
   \<and> assemble ['': 1700000000:0; ls '',
          ''-la '' @ [CHR 0xEF, CHR 0xBF, CHR 0xBD] @ ''x'' @ [CHR 0xEF, CHR 0xBF, CHR 0xBD] @ ''  '']
       = [\<lparr>Timestamp = 1700000000,
             Command = ''ls '' @ [newline] @ ''-la '' @ [CHR 0xEF, CHR 0xBF, CHR 0xBD] @ ''x''
                         @ [CHR 0xEF, CHR 0xBF, CHR 0xBD]\<rparr>]
   \<and> ValidString (''ls '' @ [newline] @ ''-la '' @ [CHR 0xEF, CHR 0xBF, CHR 0xBD] @ ''x''
                         @ [CHR 0xEF, CHR 0xBF, CHR 0xBD])
   \<and> \<not> leadingSpace (''ls '' @ [newline] @ ''-la '' @ [CHR 0xEF, CHR 0xBF, CHR 0xBD] @ ''x''
                         @ [CHR 0xEF, CHR 0xBF, CHR 0xBD])
   \<and> \<not> trailingSpace (''ls '' @ [newline] @ ''-la '' @ [CHR 0xEF, CHR 0xBF, CHR 0xBD] @ ''x''
                         @ [CHR 0xEF, CHR 0xBF, CHR 0xBD])"
proof -
  have m: "map replaceMalformed (lines sample_stream)
       = ['': 1700000000:0; ls '',
          ''-la '' @ [CHR 0xEF, CHR 0xBF, CHR 0xBD] @ ''x'' @ [CHR 0xEF, CHR 0xBF, CHR 0xBD] @ ''  '']"
    by (simp add: sample_stream_def replaceMalformed_def replacementCharacter_def utf8_eval)
  show ?thesis
    using parseHistory_commands [OF parseHistory_sample_stream] parseHistory_sample_stream m
    by simp
qed

text \<open>
  C8. Lines that do not match the header pattern and come before any header line are
  dropped: the parse of the stream is the parse of the stream without them, records and
  error alike.
\<close>

theorem orphans_discarded:
  assumes "\<forall>l \<in> set orphans. FindStringSubmatch (ensureValidUTF8 l) = None"
  shows "parseHistory \<lparr>lines = orphans @ ls, Err = err\<rparr> = parseHistory \<lparr>lines = ls, Err = err\<rparr>"
proof -
  have "foldl scanLine initial orphans = initial"
    using assms by (rule foldl_scanLine_orphans) (simp add: initial_def)
  then show ?thesis
    by (simp add: parseHistory_def)
qed

theorem orphans_discarded_witness:
  "FindStringSubmatch (ensureValidUTF8 ''world'') = None
   \<and> FindStringSubmatch (ensureValidUTF8 '': 170000:0;short'') = None
   \<and> parseHistory \<lparr>lines = [''world'', '': 170000:0;short'', '': 1700000200:0;echo hello''],
                     Err = (None :: unit option)\<rparr>
       = parseHistory \<lparr>lines = ['': 1700000200:0;echo hello''], Err = None\<rparr>"
proof -
  have h: "\<forall>l \<in> set [''world'', '': 170000:0;short'']. FindStringSubmatch (ensureValidUTF8 l) = None"
    by (simp add: ensureValidUTF8_def FindStringSubmatch_def isDigit_def utf8_eval)
  show ?thesis
    using h orphans_discarded [OF h, of "['': 1700000200:0;echo hello'']" None]
    by simp
qed

text \<open>
  C10. A line with the marker, a timestamp field, a colon, a secondary field and a
  semicolon but nothing after the semicolon does not match the header pattern. One
  iteration of the loop on it leaves the entries and the timestamp as they are: with no
  command being built the state is unchanged, and otherwise the line is joined to the
  command being built as any continuation line is.
\<close>

theorem empty_remainder_continues:
  assumes "list_all isDigit ts" and "list_all isDigit el"
  shows "FindStringSubmatch (ensureValidUTF8 (headerLine ts el [])) = None
         \<and> scanLine p (headerLine ts el []) =
             (if currentCommand p = [] then p
              else if HasSuffix_backslash (currentCommand p)
                then p\<lparr>currentCommand := butlast (currentCommand p) @ headerLine ts el []\<rparr>
              else p\<lparr>currentCommand := currentCommand p @ [newline] @ headerLine ts el []\<rparr>)"
proof -
  have dig: "\<forall>c \<in> set ts. isDigit c" "\<forall>c \<in> set el. isDigit c"
    using assms by (simp_all add: list_all_iff)
  have e: "ensureValidUTF8 (headerLine ts el []) = headerLine ts el []"
    using dig by (simp add: ensureValidUTF8_headerLine ensureValidUTF8_id)
  have m: "FindStringSubmatch (headerLine ts el []) = None"
    using dig by (simp add: FindStringSubmatch_headerLine)
  show ?thesis
    using e m by (simp add: scanLine_def Let_def)
qed

theorem empty_remainder_continues_witness:
  "list_all isDigit ''1700000300'' \<and> list_all isDigit ''0''
   \<and> scanLine initial '': 1700000300:0;'' = initial
   \<and> scanLine \<lparr>allEntries = [], currentCommand = ''echo hello'', currentTimestamp = 1700000200\<rparr>
        '': 1700000300:0;''
       = \<lparr>allEntries = [],
          currentCommand = ''echo hello'' @ [newline] @ '': 1700000300:0;'',
          currentTimestamp = 1700000200\<rparr>"
proof -
  have d: "list_all isDigit ''1700000300''" "list_all isDigit ''0''"
    by (simp_all add: isDigit_def byte_def)
  show ?thesis
    using d empty_remainder_continues [OF d, of initial]
      empty_remainder_continues [OF d,
        of "\<lparr>allEntries = [], currentCommand = ''echo hello'', currentTimestamp = 1700000200\<rparr>"]
    by (simp add: headerLine_def initial_def HasSuffix_backslash_def backslash_def)
qed

end
